theory Spec2Isabelle
  imports Main
begin

section \<open>Characters and the string primitives of the source\<close>

text \<open>
  The program is \<^verbatim>\<open>pdf-sources/clean_extract_jod.py\<close>. Its lines are Python strings; here
  a line is a \<^typ>\<open>string\<close>. The character classes are those of ASCII text: a character
  outside ASCII is taken to be caseless, not a space, not a digit and not a word character.
  \<open>is_space\<close> is the set that both \<^verbatim>\<open>str.strip()\<close> and the regular expression class
  \<^verbatim>\<open>\s\<close> use on ASCII.
\<close>

definition is_space :: "char \<Rightarrow> bool" where
  "is_space c \<longleftrightarrow> c \<in> set [CHR 0x09, CHR 0x0A, CHR 0x0B, CHR 0x0C, CHR 0x0D,
                          CHR 0x1C, CHR 0x1D, CHR 0x1E, CHR 0x1F, CHR '' '']"

definition is_digit :: "char \<Rightarrow> bool" where
  "is_digit c \<longleftrightarrow> (let n = (of_char c :: nat) in 48 \<le> n \<and> n \<le> 57)"

definition is_upper :: "char \<Rightarrow> bool" where
  "is_upper c \<longleftrightarrow> (let n = (of_char c :: nat) in 65 \<le> n \<and> n \<le> 90)"

definition is_lower :: "char \<Rightarrow> bool" where
  "is_lower c \<longleftrightarrow> (let n = (of_char c :: nat) in 97 \<le> n \<and> n \<le> 122)"

text \<open>The class \<^verbatim>\<open>\w\<close>: letters, digits and the underscore.\<close>

definition is_word :: "char \<Rightarrow> bool" where
  "is_word c \<longleftrightarrow> is_upper c \<or> is_lower c \<or> is_digit c \<or> c = CHR ''_''"

text \<open>\<^verbatim>\<open>s.strip()\<close>, \<^verbatim>\<open>s.rstrip()\<close>, and their variants with an explicit character set.\<close>

definition rstrip :: "string \<Rightarrow> string" where
  "rstrip s = rev (dropWhile is_space (rev s))"

definition strip :: "string \<Rightarrow> string" where
  "strip s = rstrip (dropWhile is_space s)"

definition rstrip_chars :: "string \<Rightarrow> string \<Rightarrow> string" where
  "rstrip_chars cs s = rev (dropWhile (\<lambda>c. c \<in> set cs) (rev s))"

definition strip_chars :: "string \<Rightarrow> string \<Rightarrow> string" where
  "strip_chars cs s = rstrip_chars cs (dropWhile (\<lambda>c. c \<in> set cs) s)"

text \<open>
  \<^verbatim>\<open>s.isupper()\<close>: at least one cased character and no lowercase one.
  \<^verbatim>\<open>s.isdigit()\<close>: non-empty and digits only.
\<close>

definition isupper :: "string \<Rightarrow> bool" where
  "isupper s \<longleftrightarrow> list_ex is_upper s \<and> \<not> list_ex is_lower s"

definition isdigit :: "string \<Rightarrow> bool" where
  "isdigit s \<longleftrightarrow> s \<noteq> [] \<and> list_all is_digit s"

text \<open>\<^verbatim>\<open>s.startswith(p)\<close> and \<^verbatim>\<open>p in s\<close>.\<close>

definition starts_with :: "string \<Rightarrow> string \<Rightarrow> bool" where
  "starts_with p s \<longleftrightarrow> take (length p) s = p"

fun contains :: "string \<Rightarrow> string \<Rightarrow> bool" where
  "contains p [] = (p = [])"
| "contains p (c # cs) = (starts_with p (c # cs) \<or> contains p cs)"

text \<open>\<^verbatim>\<open>sep.join(xs)\<close>.\<close>

fun join :: "string \<Rightarrow> string list \<Rightarrow> string" where
  "join sep [] = []"
| "join sep [x] = x"
| "join sep (x # y # ys) = x @ sep @ join sep (y # ys)"

text \<open>
  \<^verbatim>\<open>s.replace(old, new)\<close>: every non-overlapping occurrence, from the left. For an empty
  \<open>old\<close> Python puts \<open>new\<close> before every character and at the end.
\<close>

function replace_all :: "string \<Rightarrow> string \<Rightarrow> string \<Rightarrow> string" where
  "replace_all old new s =
     (if old = [] then new @ concat (map (\<lambda>c. c # new) s)
      else if s = [] then []
      else if starts_with old s then new @ replace_all old new (drop (length old) s)
      else hd s # replace_all old new (tl s))"
  by pat_completeness auto
termination
  by (relation "measure (\<lambda>(old, new, s). length s)") auto

declare replace_all.simps [simp del]

text \<open>\<^verbatim>\<open>xs[a:b]\<close> for \<open>0 \<le> a\<close> and \<open>0 \<le> b\<close>: empty when \<open>b \<le> a\<close>, cut at the end of the list.\<close>

definition slice :: "'a list \<Rightarrow> nat \<Rightarrow> nat \<Rightarrow> 'a list" where
  "slice xs a b = take (b - a) (drop a xs)"

section \<open>Regular expressions\<close>

text \<open>
  The source classifies lines with Python's \<^verbatim>\<open>re\<close> module, a backtracking matcher: of all
  the ways a pattern can match at a position it takes the first in priority order (a greedy
  repetition tries the longest run first, a lazy one the shortest, an alternation its
  branches from left to right), and \<^verbatim>\<open>re.search\<close> takes the leftmost position that has a
  match. A pattern is a list of items, matched one after the other:
  \<^item> \<open>Lit l\<close>: the literal text \<open>l\<close>;
  \<^item> \<open>Cls p\<close>: one character of the class \<open>p\<close>;
  \<^item> \<open>Greedy p lo hi\<close>: \<^verbatim>\<open>p{lo,hi}\<close>, with \<open>None\<close> for no upper bound
    (\<^verbatim>\<open>p+\<close> is \<open>Greedy p 1 None\<close>, \<^verbatim>\<open>p*\<close> is \<open>Greedy p 0 None\<close>);
  \<^item> \<open>Lazy p lo\<close>: \<^verbatim>\<open>p{lo,}?\<close>;
  \<^item> \<open>Alt bs\<close>: \<^verbatim>\<open>(?:b1|b2|...)\<close>, each branch a pattern;
  \<^item> \<open>Ahead bs\<close>: the lookahead \<^verbatim>\<open>(?=b1|b2|...)\<close>;
  \<^item> \<open>Behind p\<close>: the lookbehind \<^verbatim>\<open>(?<=p)\<close> for a one-character class;
  \<^item> \<open>WordB\<close>, \<open>Bol\<close>, \<open>Eol\<close>: \<^verbatim>\<open>\b\<close>, \<^verbatim>\<open>^\<close> and \<^verbatim>\<open>$\<close> (no flags are used, so
    \<^verbatim>\<open>$\<close> holds at the end and before a final newline).
  A match is recorded as the number of characters each item took, from which the groups
  of the pattern are read off.
\<close>

datatype item =
    Lit string
  | Cls "char \<Rightarrow> bool"
  | Greedy "char \<Rightarrow> bool" nat "nat option"
  | Lazy "char \<Rightarrow> bool" nat
  | Alt "item list list"
  | Ahead "item list list"
  | Behind "char \<Rightarrow> bool"
  | WordB
  | Bol
  | Eol

text \<open>The character before the current position, after \<open>n\<close> more characters of \<open>s\<close>.\<close>

definition prev_after :: "char option \<Rightarrow> nat \<Rightarrow> string \<Rightarrow> char option" where
  "prev_after prev n s = (if n = 0 then prev else Some (s ! (n - 1)))"

definition word_opt :: "char option \<Rightarrow> bool" where
  "word_opt c = (case c of None \<Rightarrow> False | Some x \<Rightarrow> is_word x)"

definition next_char :: "string \<Rightarrow> char option" where
  "next_char s = (case s of [] \<Rightarrow> None | c # _ \<Rightarrow> Some c)"

text \<open>
  \<open>cands it prev s\<close>: the lengths item \<open>it\<close> can take at the front of \<open>s\<close>, in priority
  order; \<open>lens its prev s\<close>: the same for a whole pattern.
\<close>

fun cands :: "item \<Rightarrow> char option \<Rightarrow> string \<Rightarrow> nat list"
  and lens :: "item list \<Rightarrow> char option \<Rightarrow> string \<Rightarrow> nat list" where
  "cands (Lit l) prev s = (if starts_with l s then [length l] else [])"
| "cands (Cls p) prev s = (case s of [] \<Rightarrow> [] | c # _ \<Rightarrow> if p c then [1] else [])"
| "cands (Greedy p lo hi) prev s =
     (let k = length (takeWhile p s);
          m = (case hi of None \<Rightarrow> k | Some h \<Rightarrow> min k h)
      in rev [lo..<Suc m])"
| "cands (Lazy p lo) prev s = [lo..<Suc (length (takeWhile p s))]"
| "cands (Alt bs) prev s = concat (map (\<lambda>b. lens b prev s) bs)"
| "cands (Ahead bs) prev s = (if list_ex (\<lambda>b. lens b prev s \<noteq> []) bs then [0] else [])"
| "cands (Behind p) prev s =
     (case prev of None \<Rightarrow> [] | Some c \<Rightarrow> if p c then [0] else [])"
| "cands WordB prev s = (if word_opt prev \<noteq> word_opt (next_char s) then [0] else [])"
| "cands Bol prev s = (if prev = None then [0] else [])"
| "cands Eol prev s = (if s = [] \<or> s = [CHR 0x0A] then [0] else [])"
| "lens [] prev s = [0]"
| "lens (it # its) prev s =
     concat (map (\<lambda>n. map ((+) n) (lens its (prev_after prev n s) (drop n s)))
                 (cands it prev s))"

text \<open>The first match of a pattern at the front of \<open>s\<close>: \<^verbatim>\<open>re.match\<close>.\<close>

fun first_some :: "('a \<Rightarrow> 'b option) \<Rightarrow> 'a list \<Rightarrow> 'b option" where
  "first_some f [] = None"
| "first_some f (x # xs) = (case f x of Some y \<Rightarrow> Some y | None \<Rightarrow> first_some f xs)"

fun first_split :: "item list \<Rightarrow> char option \<Rightarrow> string \<Rightarrow> nat list option" where
  "first_split [] prev s = Some []"
| "first_split (it # its) prev s =
     first_some (\<lambda>n. map_option ((#) n) (first_split its (prev_after prev n s) (drop n s)))
                (cands it prev s)"

definition rx_match :: "item list \<Rightarrow> string \<Rightarrow> nat list option" where
  "rx_match its s = first_split its None s"

text \<open>
  \<^verbatim>\<open>re.search\<close>: the leftmost position with a match, and the match there. \<open>pos\<close> counts the
  characters already passed, \<open>prev\<close> is the last of them.
\<close>

fun rx_search_from :: "item list \<Rightarrow> char option \<Rightarrow> string \<Rightarrow> nat \<Rightarrow> (nat \<times> nat list) option" where
  "rx_search_from its prev [] pos =
     (case first_split its prev [] of Some ns \<Rightarrow> Some (pos, ns) | None \<Rightarrow> None)"
| "rx_search_from its prev (c # cs) pos =
     (case first_split its prev (c # cs) of
        Some ns \<Rightarrow> Some (pos, ns)
      | None \<Rightarrow> rx_search_from its (Some c) cs (Suc pos))"

definition rx_search :: "item list \<Rightarrow> string \<Rightarrow> (nat \<times> nat list) option" where
  "rx_search its s = rx_search_from its None s 0"

definition rx_test :: "item list \<Rightarrow> string \<Rightarrow> bool" where
  "rx_test its s \<longleftrightarrow> rx_search its s \<noteq> None"

text \<open>
  The text that items \<open>a\<close> to \<open>b - 1\<close> of a pattern took, for a match that starts at
  \<open>pos\<close> in \<open>s\<close> with the item lengths \<open>ns\<close>: a group of the pattern.
\<close>

definition seg :: "string \<Rightarrow> nat \<Rightarrow> nat list \<Rightarrow> nat \<Rightarrow> nat \<Rightarrow> string" where
  "seg s pos ns a b =
     take (sum_list (take b ns) - sum_list (take a ns)) (drop (pos + sum_list (take a ns)) s)"

text \<open>
  \<^verbatim>\<open>re.sub(pattern, repl, s)\<close>: the matches are found from the left, none overlapping the
  one before; each is replaced by \<open>repl\<close>, a function of the matched text and the item
  lengths. An empty match puts the replacement in and moves on by one character; no
  pattern of the source can match the empty string.
\<close>

function rx_sub :: "item list \<Rightarrow> (string \<Rightarrow> nat list \<Rightarrow> string) \<Rightarrow> char option \<Rightarrow> string \<Rightarrow> string" where
  "rx_sub its repl prev s =
     (case first_split its prev s of
        None \<Rightarrow> (case s of [] \<Rightarrow> [] | c # cs \<Rightarrow> c # rx_sub its repl (Some c) cs)
      | Some ns \<Rightarrow>
          (case s of
             [] \<Rightarrow> repl s ns
           | c # cs \<Rightarrow>
               (if sum_list ns = 0 then repl s ns @ c # rx_sub its repl (Some c) cs
                else repl s ns @
                     rx_sub its repl (prev_after prev (sum_list ns) s) (drop (sum_list ns) s))))"
  by pat_completeness auto
termination
  by (relation "measure (\<lambda>(its, repl, prev, s). length s)")
     (auto dest!: member_le_sum_list)

declare rx_sub.simps [simp del]

section \<open>Page cleaning and hyphenation\<close>

abbreviation sp0 :: item where "sp0 \<equiv> Greedy is_space 0 None"
abbreviation sp1 :: item where "sp1 \<equiv> Greedy is_space 1 None"

text \<open>\<^verbatim>\<open>^\d+\s+JOURNAL OF DISCOURSES\.$\<close>\<close>

definition pat_numbered_header :: "item list" where
  "pat_numbered_header =
     [Bol, Greedy is_digit 1 None, sp1, Lit ''JOURNAL OF DISCOURSES.'', Eol]"

text \<open>\<^verbatim>\<open>^[A-Z\s\-\',]+\.\s+\d+\s*$\<close>\<close>

definition title_footer_char :: "char \<Rightarrow> bool" where
  "title_footer_char c \<longleftrightarrow> is_upper c \<or> is_space c \<or> c \<in> set [CHR ''-'', CHR 0x27, CHR '','']"

definition pat_title_footer :: "item list" where
  "pat_title_footer =
     [Bol, Greedy title_footer_char 1 None, Lit ''.'', sp1, Greedy is_digit 1 None, sp0, Eol]"

definition is_page_header_footer :: "string \<Rightarrow> bool" where
  "is_page_header_footer l =
     (let line = strip l in
      if line = [] then True
      else if isdigit line then True
      else if rx_match pat_numbered_header line \<noteq> None then True
      else if line = ''JOURNAL OF DISCOURSES.'' then True
      else if rx_match pat_title_footer line \<noteq> None then True
      else False)"

fun clean_page_text :: "string list \<Rightarrow> string list" where
  "clean_page_text [] = []"
| "clean_page_text (l # page_lines) =
     (let line = strip l in
      if \<not> is_page_header_footer line then line # clean_page_text page_lines
      else clean_page_text page_lines)"

text \<open>\<^verbatim>\<open>(\w+)-\s*$\<close>; group 1 is item 0.\<close>

definition pat_hyphen :: "item list" where
  "pat_hyphen = [Greedy is_word 1 None, Lit ''-'', sp0, Eol]"

text \<open>
  \<open>fix_from lines i\<close> is what the loop of \<^verbatim>\<open>fix_hyphenation\<close> appends to \<^verbatim>\<open>fixed\<close> from
  the cursor \<open>i\<close> on.
\<close>

function fix_from :: "string list \<Rightarrow> nat \<Rightarrow> string list" where
  "fix_from lines i =
     (if i < length lines then
        (let line = lines ! i in
         if i + 1 < length lines then
           (case rx_search pat_hyphen line of
              Some (p, ns) \<Rightarrow>
                (let next_line = strip (lines ! (i + 1)) in
                 if next_line \<noteq> [] \<and> is_lower (hd next_line)
                 then (take p line @ seg line p ns 0 1 @ next_line) # fix_from lines (i + 2)
                 else line # fix_from lines (i + 1))
            | None \<Rightarrow> line # fix_from lines (i + 1))
         else line # fix_from lines (i + 1))
      else [])"
  by pat_completeness auto
termination
  by (relation "measure (\<lambda>(lines, i). length lines - i)") auto

declare fix_from.simps [simp del]

definition fix_hyphenation :: "string list \<Rightarrow> string list" where
  "fix_hyphenation lines = fix_from lines 0"

section \<open>Line classification\<close>

text \<open>The running header \<^verbatim>\<open>\.\s+\d{2,3}$\<close>, tested with \<^verbatim>\<open>re.search\<close>.\<close>

definition pat_running_header :: "item list" where
  "pat_running_header = [Lit ''.'', sp1, Greedy is_digit 2 (Some 3), Eol]"

definition running_header :: "string \<Rightarrow> bool" where
  "running_header line = rx_test pat_running_header line"

text \<open>
  \<^verbatim>\<open>has_speaker_indicator\<close>: the seven patterns, in the order of the source.
\<close>

definition speaker_patterns :: "item list list" where
  "speaker_patterns =
     [[WordB, Lit ''BY'', sp1,
       Alt [[Lit ''PRESIDENT''], [Lit ''ELDER''], [Lit ''HON.''], [Lit ''ESQ.''],
            [Lit ''MR.''], [Lit ''PROFESSOR'']]],
      [WordB, Lit ''PRESIDENT'', sp1, Cls is_upper],
      [WordB, Lit ''ELDER'', sp1, Cls is_upper],
      [WordB, Lit ''HON.'', sp1, Cls is_upper],
      [WordB, Lit ''ESQ.'', sp0, Lit '',''],
      [WordB, Lit ''DELIVERED'', sp1, Lit ''BY''],
      [WordB, Lit ''BEFORE'', sp1, Lit ''THE'', sp1, Lit ''HON.'']]"

definition has_speaker_indicator :: "string \<Rightarrow> bool" where
  "has_speaker_indicator line = list_ex (\<lambda>pattern. rx_test pattern line) speaker_patterns"

definition location_patterns :: "item list list" where
  "location_patterns =
     [[WordB, Lit ''DELIVERED'', sp1, Alt [[Lit ''IN''], [Lit ''AT'']]],
      [WordB, Lit ''GREAT'', sp1, Lit ''SALT'', sp1, Lit ''LAKE''],
      [WordB, Lit ''TABERNACLE'']]"

definition has_location_indicator :: "string \<Rightarrow> bool" where
  "has_location_indicator line = list_ex (\<lambda>pattern. rx_test pattern line) location_patterns"

text \<open>
  The date \<^verbatim>\<open>([A-Z]+\s+\d{1,2}(?:TH|ST|ND|RD)?,\s+\d{4})\<close>; group 1 is the whole match,
  items 0 to 6.
\<close>

definition pat_date :: "item list" where
  "pat_date =
     [Greedy is_upper 1 None, sp1, Greedy is_digit 1 (Some 2),
      Alt [[Lit ''TH''], [Lit ''ST''], [Lit ''ND''], [Lit ''RD''], []],
      Lit '','', sp1, Greedy is_digit 4 (Some 4)]"

definition date_search :: "string \<Rightarrow> string option" where
  "date_search line =
     (case rx_search pat_date line of
        None \<Rightarrow> None
      | Some (p, ns) \<Rightarrow> Some (seg line p ns 0 7))"

definition has_date :: "string \<Rightarrow> bool" where
  "has_date line = rx_test pat_date line"

section \<open>Boundary detection\<close>

record boundary =
  start :: nat
  title_end :: nat
  title_lines :: "string list"

text \<open>\<^verbatim>\<open>line in ["", "AMEN", "AMEN."]\<close>\<close>

definition amen_or_empty :: "string \<Rightarrow> bool" where
  "amen_or_empty line \<longleftrightarrow> line \<in> set [[], ''AMEN'', ''AMEN.'']"

text \<open>
  The verification phrase of one line, and the lookahead
  \<^verbatim>\<open>for k in range(j, min(j + 8, len(lines)))\<close> that both emitting paths run.
\<close>

definition has_verification :: "string \<Rightarrow> bool" where
  "has_verification check_line \<longleftrightarrow>
     contains ''REPORTED BY'' check_line \<or>
     (contains ''BEFORE THE HON.'' check_line \<and> contains ''JUDGE'' check_line)"

definition verified :: "string list \<Rightarrow> nat \<Rightarrow> bool" where
  "verified lines j =
     list_ex (\<lambda>k. has_verification (strip (lines ! k))) [j..<min (j + 8) (length lines)]"

text \<open>
  The backward loop. Its counter \<open>n\<close> is \<^verbatim>\<open>lookback + 1\<close>, so the loop ends at \<open>n = 0\<close>; it
  returns \<^verbatim>\<open>title_lines\<close> and \<^verbatim>\<open>start_idx\<close>.
\<close>

fun look_back :: "string list \<Rightarrow> nat \<Rightarrow> string list \<Rightarrow> nat \<Rightarrow> string list \<times> nat" where
  "look_back lines 0 tls start_idx = (tls, start_idx)"
| "look_back lines (Suc lookback) tls start_idx =
     (let prev_line = strip (lines ! lookback) in
      if amen_or_empty prev_line then look_back lines lookback tls start_idx
      else if isupper prev_line \<and> length prev_line > 3 \<and> \<not> running_header prev_line then
        (if \<not> contains ''AMEN'' prev_line
         then look_back lines lookback (prev_line # tls) lookback
         else look_back lines lookback tls start_idx)
      else (tls, start_idx))"

text \<open>
  The forward loop from the candidate \<open>i\<close>, with its cursor \<open>j\<close> and the title lines so
  far. It returns the way it ended, the final \<open>j\<close> and the title lines. The loop ends
  \<^item> with a boundary, on a line with a speaker or location indicator whose lookahead
    verifies (\<open>Verified_on_indicator\<close>), or on a line that is not uppercase, when a title
    line has a speaker indicator and the lookahead verifies (\<open>Verified_on_noncaps\<close>);
  \<^item> without one, on a line that is not uppercase (\<open>Failed_on_noncaps\<close> when the lookahead
    ran and failed, \<open>No_speaker_on_noncaps\<close> when no title line has a speaker indicator),
    by one of the two distance limits, or at the end of the lines.
\<close>

datatype walk_end =
    Verified_on_indicator
  | Verified_on_noncaps
  | Failed_on_noncaps
  | No_speaker_on_noncaps
  | Skipped_too_far
  | Walked_too_far
  | Lines_exhausted

text \<open>
  The end of the branch for an uppercase line, after \<^verbatim>\<open>j += 1\<close>: the indicator test with
  its lookahead, then the limit of 15 lines. \<open>Inl\<close> ends the loop, \<open>Inr\<close> goes on.
\<close>

definition after_caps ::
  "string list \<Rightarrow> nat \<Rightarrow> nat \<Rightarrow> string list \<Rightarrow> string
     \<Rightarrow> (walk_end \<times> nat \<times> string list) + (nat \<times> string list)" where
  "after_caps lines i j tls curr_line =
     (if (has_speaker_indicator curr_line \<or> has_location_indicator curr_line)
         \<and> verified lines j \<and> length tls > 0
      then Inl (Verified_on_indicator, j, tls)
      else if j - i > 15 then Inl (Walked_too_far, j, tls)
      else Inr (j, tls))"

text \<open>The body of the forward loop at \<open>j < len(lines)\<close>.\<close>

definition walk_step ::
  "string list \<Rightarrow> nat \<Rightarrow> nat \<Rightarrow> string list
     \<Rightarrow> (walk_end \<times> nat \<times> string list) + (nat \<times> string list)" where
  "walk_step lines i j tls =
     (let curr_line = strip (lines ! j) in
      if curr_line = [] \<or> running_header curr_line then
        (if Suc j - i > 10 then Inl (Skipped_too_far, Suc j, tls) else Inr (Suc j, tls))
      else if isupper curr_line then
        (if curr_line \<notin> set tls \<and> \<not> contains ''AMEN'' curr_line
         then after_caps lines i (Suc j) (tls @ [curr_line]) curr_line
         else if contains ''AMEN'' curr_line then Inr (Suc j, tls)
         else after_caps lines i (Suc j) tls curr_line)
      else
        (if length tls \<ge> 1 \<and> list_ex has_speaker_indicator tls then
           (if verified lines j then Inl (Verified_on_noncaps, j, tls)
            else Inl (Failed_on_noncaps, j, tls))
         else Inl (No_speaker_on_noncaps, j, tls)))"

lemma after_caps_continues: "after_caps lines i j tls c = Inr (j', tls') \<Longrightarrow> j' = j"
  by (simp add: after_caps_def split: if_splits)

lemma walk_step_continues: "walk_step lines i j tls = Inr (j', tls') \<Longrightarrow> j' = Suc j"
  by (simp add: walk_step_def Let_def split: if_splits)
     (auto dest: after_caps_continues)

function forward_walk ::
  "string list \<Rightarrow> nat \<Rightarrow> nat \<Rightarrow> string list \<Rightarrow> walk_end \<times> nat \<times> string list" where
  "forward_walk lines i j tls =
     (if j < length lines then
        (case walk_step lines i j tls of
           Inl r \<Rightarrow> r
         | Inr (j', tls') \<Rightarrow> forward_walk lines i j' tls')
      else (Lines_exhausted, j, tls))"
  by pat_completeness auto
termination
  by (relation "measure (\<lambda>(lines, i, j, tls). length lines - j)")
     (auto dest!: walk_step_continues)

declare forward_walk.simps [simp del]

text \<open>
  One pass of the outer loop at the cursor \<open>i\<close>, for \<open>i < len(lines)\<close>: the next cursor,
  the next \<^verbatim>\<open>last_boundary_end\<close> and the boundary appended, if any. After the forward
  loop the source sets \<^verbatim>\<open>i = j if j > i else i + 1\<close>; on \<open>Verified_on_indicator\<close> it has
  set \<^verbatim>\<open>i = j\<close> before, so that the cursor becomes \<open>j + 1\<close>.
\<close>

definition scan_step :: "string list \<Rightarrow> nat \<Rightarrow> int \<Rightarrow> nat \<times> int \<times> boundary option" where
  "scan_step lines i last_boundary_end =
     (if int i < last_boundary_end + 3 then (i + 1, last_boundary_end, None)
      else
        (let line = strip (lines ! i) in
         if amen_or_empty line then (i + 1, last_boundary_end, None)
         else if \<not> isupper line \<or> length line < 5 then (i + 1, last_boundary_end, None)
         else if running_header line then (i + 1, last_boundary_end, None)
         else
           (case look_back lines i [] i of (tls0, start_idx) \<Rightarrow>
            (case forward_walk lines i i tls0 of (how, j, tls) \<Rightarrow>
               (if how = Verified_on_indicator then
                  (if j > j then j else j + 1, int j,
                   Some \<lparr>start = start_idx, title_end = j, title_lines = tls\<rparr>)
                else if how = Verified_on_noncaps then
                  (if j > i then j else i + 1, int j,
                   Some \<lparr>start = start_idx, title_end = j, title_lines = tls\<rparr>)
                else (if j > i then j else i + 1, last_boundary_end, None))))))"

lemma walk_step_ends: "walk_step lines i j tls = Inl (how, j', tls') \<Longrightarrow> j \<le> j'"
  by (simp add: walk_step_def after_caps_def Let_def split: if_splits)

lemma forward_walk_advances:
  "forward_walk lines i j tls = (how, j', tls') \<Longrightarrow> j \<le> j'"
proof (induction lines i j tls rule: forward_walk.induct)
  case (1 lines i j tls)
  show ?case
  proof (cases "j < length lines")
    case False
    with "1.prems" show ?thesis by (simp add: forward_walk.simps [of lines i j tls])
  next
    case True
    show ?thesis
    proof (cases "walk_step lines i j tls")
      case (Inl r)
      with True "1.prems" have "walk_step lines i j tls = Inl (how, j', tls')"
        by (simp add: forward_walk.simps [of lines i j tls])
      then show ?thesis by (rule walk_step_ends)
    next
      case (Inr c)
      obtain j1 tls1 where c: "c = (j1, tls1)" by (cases c)
      from Inr c have j1: "j1 = Suc j" by (auto dest: walk_step_continues)
      from True Inr c "1.prems" have "forward_walk lines i j1 tls1 = (how, j', tls')"
        by (simp add: forward_walk.simps [of lines i j tls])
      with "1.IH" [OF True Inr c [symmetric]] have "j1 \<le> j'" by simp
      with j1 show ?thesis by simp
    qed
  qed
qed

lemma scan_step_advances: "scan_step lines i e = (i', e', out) \<Longrightarrow> i < i'"
  by (auto simp: scan_step_def Let_def split: if_splits prod.splits
           dest: forward_walk_advances)

function scan :: "string list \<Rightarrow> nat \<Rightarrow> int \<Rightarrow> boundary list" where
  "scan lines i last_boundary_end =
     (if i < length lines then
        (case scan_step lines i last_boundary_end of
           (i', last_boundary_end', out) \<Rightarrow>
             (case out of None \<Rightarrow> [] | Some b \<Rightarrow> [b]) @ scan lines i' last_boundary_end')
      else [])"
  by pat_completeness auto
termination
  by (relation "measure (\<lambda>(lines, i, e). length lines - i)")
     (auto dest: scan_step_advances [OF sym])

declare scan.simps [simp del]

definition find_discourse_boundaries :: "string list \<Rightarrow> boundary list" where
  "find_discourse_boundaries lines = scan lines 0 (- 1)"

section \<open>Metadata extraction\<close>

subsection \<open>Speaker\<close>

text \<open>The class \<^verbatim>\<open>[A-Z\s\.]\<close> of a name.\<close>

definition name_char :: "char \<Rightarrow> bool" where
  "name_char c \<longleftrightarrow> is_upper c \<or> is_space c \<or> c = CHR ''.''"

text \<open>
  The three patterns of \<^verbatim>\<open>extract_speaker_name\<close>, each with the item range of its group 1:
  \<^verbatim>\<open>BY\s+((?:PRESIDENT|ELDER|HON\.|ESQ\.|MR\.|PROFESSOR)\s+[A-Z\s\.]+?)(?:,|\s+DELIVERED|\s+BEFORE|\s+ON)\<close>,
  \<^verbatim>\<open>((?:PRESIDENT|ELDER|HON\.|ESQ\.)\s+[A-Z\s\.]+?)(?:,|\s+DELIVERED|\s+BEFORE)\<close> and
  \<^verbatim>\<open>BY\s+([A-Z\s\.]+?)(?:,|\s+DELIVERED|\s+BEFORE)\<close>.
\<close>

definition name_patterns :: "(item list \<times> nat \<times> nat) list" where
  "name_patterns =
     [([Lit ''BY'', sp1,
        Alt [[Lit ''PRESIDENT''], [Lit ''ELDER''], [Lit ''HON.''], [Lit ''ESQ.''],
             [Lit ''MR.''], [Lit ''PROFESSOR'']],
        sp1, Lazy name_char 1,
        Alt [[Lit '',''], [sp1, Lit ''DELIVERED''], [sp1, Lit ''BEFORE''], [sp1, Lit ''ON'']]],
       2, 5),
      ([Alt [[Lit ''PRESIDENT''], [Lit ''ELDER''], [Lit ''HON.''], [Lit ''ESQ.'']],
        sp1, Lazy name_char 1,
        Alt [[Lit '',''], [sp1, Lit ''DELIVERED''], [sp1, Lit ''BEFORE'']]],
       0, 3),
      ([Lit ''BY'', sp1, Lazy name_char 1,
        Alt [[Lit '',''], [sp1, Lit ''DELIVERED''], [sp1, Lit ''BEFORE'']]],
       2, 3)]"

fun first_name_match :: "(item list \<times> nat \<times> nat) list \<Rightarrow> string \<Rightarrow> string" where
  "first_name_match [] text = []"
| "first_name_match ((pattern, a, b) # patterns) text =
     (case rx_search pattern text of
        Some (p, ns) \<Rightarrow> rstrip_chars '',.'' (strip (seg text p ns a b))
      | None \<Rightarrow> first_name_match patterns text)"

definition extract_speaker_name :: "string \<Rightarrow> string" where
  "extract_speaker_name text = first_name_match name_patterns text"

text \<open>
  \<^verbatim>\<open>normalize_speaker_name\<close>, one definition for each of its steps:
  \<^verbatim>\<open>re.sub(r'(?<=\s)([A-Z])\s+([A-Z]{2,})', r'\1\2', speaker)\<close>,
  \<^verbatim>\<open>re.sub(r'(?<=\.)(\s*)([A-Z])\s+([A-Z]{2,})', r'\1\2\3', speaker)\<close>,
  the four rewrites of abbreviated names, and the titles.
\<close>

definition fix_spacing :: "string \<Rightarrow> string" where
  "fix_spacing speaker =
     rx_sub [Behind is_space, Cls is_upper, sp1, Greedy is_upper 2 None]
       (\<lambda>s ns. seg s 0 ns 1 2 @ seg s 0 ns 3 4) None speaker"

definition fix_spacing_after_period :: "string \<Rightarrow> string" where
  "fix_spacing_after_period speaker =
     rx_sub [Behind (\<lambda>c. c = CHR ''.''), sp0, Cls is_upper, sp1, Greedy is_upper 2 None]
       (\<lambda>s ns. seg s 0 ns 1 2 @ seg s 0 ns 2 3 @ seg s 0 ns 4 5) None speaker"

definition expand_names :: "string \<Rightarrow> string" where
  "expand_names speaker =
     (let s1 = rx_sub [WordB, Lit ''B.'', sp0, Lit ''YOUNG'', WordB]
                 (\<lambda>s ns. ''BRIGHAM YOUNG'') None speaker;
          s2 = rx_sub [Lit ''H.'', sp0, Lit ''C.'', sp0, Lit ''KIMBALL'']
                 (\<lambda>s ns. ''HEBER C. KIMBALL'') None s1;
          s3 = replace_all ''H. C. KIMBALL'' ''HEBER C. KIMBALL'' s2
      in rx_sub [WordB, Lit ''P.'', sp0, Lit ''P.'', sp0, Lit ''PRATT'', WordB]
           (\<lambda>s ns. ''PARLEY P. PRATT'') None s3)"

definition normalize_titles :: "string \<Rightarrow> string" where
  "normalize_titles speaker =
     (let s1 = replace_all ''PROFESSOR '' ''ELDER '' speaker;
          s2 = replace_all ''MR. '' ''ELDER '' s1;
          s3 = replace_all ''HON. '' ''ELDER '' s2;
          s4 = replace_all ''ESQ.'' ''ESQ.,'' s3
      in if contains ''ESQ.,'' s4 then
           (let s5 = strip (replace_all ''ESQ.,'' [] s4)
            in if \<not> starts_with ''ELDER'' s5 then ''ELDER '' @ s5 else s5)
         else s4)"

definition normalize_speaker_name :: "string \<Rightarrow> string" where
  "normalize_speaker_name speaker =
     (let s1 = expand_names (fix_spacing_after_period (fix_spacing speaker));
          s2 = (if s1 = ''PARLEY P. PRATT'' then ''ELDER '' @ s1 else s1)
      in strip (normalize_titles s2))"

subsection \<open>Location and date\<close>

text \<open>
  \<^verbatim>\<open>(?:DELIVERED|AT|IN|BEFORE)\s+(?:THE\s+)?([A-Z\s,\.]+?)(?=,\s*[A-Z]+\s+\d|$|REPORTED)\<close>;
  group 1 is item 3.
\<close>

definition location_char :: "char \<Rightarrow> bool" where
  "location_char c \<longleftrightarrow> is_upper c \<or> is_space c \<or> c = CHR '','' \<or> c = CHR ''.''"

definition pat_location :: "item list" where
  "pat_location =
     [Alt [[Lit ''DELIVERED''], [Lit ''AT''], [Lit ''IN''], [Lit ''BEFORE'']],
      sp1,
      Alt [[Lit ''THE'', sp1], []],
      Lazy location_char 1,
      Ahead [[Lit '','', sp0, Greedy is_upper 1 None, sp1, Cls is_digit],
             [Eol],
             [Lit ''REPORTED'']]]"

text \<open>
  The clean-up of the location: \<^verbatim>\<open>re.sub(r'\s*,\s*\.', '', location)\<close>,
  \<^verbatim>\<open>re.sub(r',\s*,', ',', location)\<close>, \<^verbatim>\<open>re.sub(r'\s+', ' ', location)\<close> and
  \<^verbatim>\<open>location.strip(',. ')\<close>.
\<close>

definition clean_location :: "string \<Rightarrow> string" where
  "clean_location location =
     (let l1 = rx_sub [sp0, Lit '','', sp0, Lit ''.''] (\<lambda>s ns. []) None location;
          l2 = rx_sub [Lit '','', sp0, Lit '',''] (\<lambda>s ns. '','') None l1;
          l3 = rx_sub [sp1] (\<lambda>s ns. '' '') None l2
      in strip_chars '',. '' l3)"

definition extract_location_and_date :: "string \<Rightarrow> string \<times> string" where
  "extract_location_and_date text0 =
     (let date = (case date_search text0 of Some d \<Rightarrow> d | None \<Rightarrow> []);
          text = (case date_search text0 of Some d \<Rightarrow> replace_all d [] text0 | None \<Rightarrow> text0);
          location = (case rx_search pat_location text of
                        Some (p, ns) \<Rightarrow> strip (seg text p ns 3 4)
                      | None \<Rightarrow> [])
      in (clean_location location, date))"

subsection \<open>The heading block\<close>

record discourse_metadata =
  title :: string
  speaker :: string
  location :: string
  date :: string
  reporter :: string

text \<open>
  \<^verbatim>\<open>block_lines\<close>: the stripped lines of \<^verbatim>\<open>range(start_idx, min(end_idx + 5, len(lines)))\<close>
  that are not empty.
\<close>

definition block_lines :: "string list \<Rightarrow> nat \<Rightarrow> nat \<Rightarrow> string list" where
  "block_lines lines start_idx end_idx =
     filter (\<lambda>l. l \<noteq> [])
       (map (\<lambda>i. strip (lines ! i)) [start_idx..<min (end_idx + 5) (length lines)])"

text \<open>
  The state of the loop over \<^verbatim>\<open>block_lines\<close>: the three lists of parts, and the date and
  reporter fields of \<^verbatim>\<open>metadata\<close>, which the loop writes.
\<close>

record block_scan =
  title_parts :: "string list"
  speaker_parts :: "string list"
  location_parts :: "string list"
  date_field :: string
  reporter_field :: string

definition scan_line :: "string \<Rightarrow> block_scan \<Rightarrow> block_scan" where
  "scan_line line st =
     (let st1 = (case date_search line of
                   Some d \<Rightarrow> if date_field st = [] then st\<lparr>date_field := d\<rparr> else st
                 | None \<Rightarrow> st)
      in if has_speaker_indicator line
         then st1\<lparr>speaker_parts := speaker_parts st1 @ [line]\<rparr>
         else if has_location_indicator line
         then st1\<lparr>location_parts := location_parts st1 @ [line]\<rparr>
         else if date_field st1 = [] \<and> isupper line \<and> \<not> contains ''BEFORE'' line
         then (if \<not> running_header line \<and> \<not> contains ''AMEN'' line
               then st1\<lparr>title_parts := title_parts st1 @ [rstrip_chars ''.'' line]\<rparr>
               else st1)
         else st1)"

fun scan_block :: "string list \<Rightarrow> block_scan \<Rightarrow> block_scan" where
  "scan_block [] st = st"
| "scan_block (line # rest) st =
     (if starts_with ''REPORTED BY'' line
      then st\<lparr>reporter_field := rstrip_chars ''.'' (strip (replace_all ''REPORTED BY'' [] line))\<rparr>
      else scan_block rest (scan_line line st))"

definition extract_metadata_from_block ::
  "string list \<Rightarrow> nat \<Rightarrow> nat \<Rightarrow> discourse_metadata" where
  "extract_metadata_from_block lines start_idx end_idx =
     (let st = scan_block (block_lines lines start_idx end_idx)
                 \<lparr>title_parts = [], speaker_parts = [], location_parts = [],
                  date_field = [], reporter_field = []\<rparr>;
          speaker_text = join '' '' (speaker_parts st);
          speaker0 = extract_speaker_name speaker_text;
          location_text = join '' '' (location_parts st @ speaker_parts st);
          found = extract_location_and_date location_text
      in \<lparr>title = (if title_parts st \<noteq> [] then join '' '' (title_parts st) else []),
          speaker = (if speaker0 \<noteq> [] then normalize_speaker_name speaker0 else []),
          location = fst found,
          date = (if snd found \<noteq> [] \<and> date_field st = [] then snd found else date_field st),
          reporter = reporter_field st\<rparr>)"

section \<open>Content and paragraphs\<close>

text \<open>
  The loop of \<^verbatim>\<open>find_all_discourses\<close> that filters \<^verbatim>\<open>content_lines\<close>, with its flag
  \<^verbatim>\<open>started_content\<close>. The branch for an uppercase line before the content has started
  appends nothing, whether the line contains \<^verbatim>\<open>REPORTED BY\<close> or \<^verbatim>\<open>DELIVERED\<close> or not. The
  set \<^verbatim>\<open>title_parts\<close> that the source builds before this loop is never read.
\<close>

fun filter_title_lines :: "string \<Rightarrow> string list \<Rightarrow> bool \<Rightarrow> string list" where
  "filter_title_lines ttl [] started_content = []"
| "filter_title_lines ttl (l # content_lines) started_content =
     (let line_stripped = strip l in
      if \<not> isupper line_stripped \<or> started_content then
        (if line_stripped \<notin> set [ttl, ttl @ ''.'']
         then l # filter_title_lines ttl content_lines True
         else filter_title_lines ttl content_lines True)
      else if \<not> list_ex (\<lambda>part. contains part line_stripped) [''REPORTED BY'', ''DELIVERED'']
      then filter_title_lines ttl content_lines started_content
      else filter_title_lines ttl content_lines started_content)"

text \<open>
  The lines that \<^verbatim>\<open>find_all_discourses\<close> hands to \<^verbatim>\<open>join_paragraphs\<close> for one boundary:
  \<^verbatim>\<open>lines[content_start:content_end]\<close>, filtered when the title is not empty.
\<close>

definition content_lines_of :: "string list \<Rightarrow> discourse_metadata \<Rightarrow> nat \<Rightarrow> nat \<Rightarrow> string list" where
  "content_lines_of lines meta content_start content_end =
     (let content_lines = slice lines content_start content_end in
      if title meta \<noteq> [] then filter_title_lines (title meta) content_lines False
      else content_lines)"

text \<open>
  The loop over \<^verbatim>\<open>enumerate(boundaries)\<close>: for each boundary its metadata and the lines
  handed to \<^verbatim>\<open>join_paragraphs\<close>. \<^verbatim>\<open>content_end\<close> is the start of the next boundary, or
  \<^verbatim>\<open>len(lines)\<close> for the last.
\<close>

fun content_spans :: "string list \<Rightarrow> boundary list \<Rightarrow> (discourse_metadata \<times> string list) list" where
  "content_spans lines [] = []"
| "content_spans lines (b # bs) =
     (let content_start = title_end b;
          content_end = (case bs of [] \<Rightarrow> length lines | b' # _ \<Rightarrow> start b');
          meta = extract_metadata_from_block lines (start b) (title_end b)
      in (meta, content_lines_of lines meta content_start content_end) # content_spans lines bs)"

text \<open>
  \<^verbatim>\<open>join_paragraphs\<close>. A paragraph is finished by joining its lines with a space and by
  \<^verbatim>\<open>re.sub(r'(\w+)-\s+(\w+)', r'\1\2', para_text)\<close>. \<open>para_loop\<close> is the loop with its
  two variables \<^verbatim>\<open>paragraphs\<close> and \<^verbatim>\<open>current\<close> and the flush after it.
\<close>

definition finish_paragraph :: "string list \<Rightarrow> string" where
  "finish_paragraph current =
     rx_sub [Greedy is_word 1 None, Lit ''-'', sp1, Greedy is_word 1 None]
       (\<lambda>s ns. seg s 0 ns 0 1 @ seg s 0 ns 3 4) None (join '' '' current)"

definition ends_sentence :: "string \<Rightarrow> bool" where
  "ends_sentence prev_line \<longleftrightarrow>
     (let s = rstrip prev_line in s \<noteq> [] \<and> last s \<in> set ''.!?:;'')"

definition starts_new :: "string \<Rightarrow> bool" where
  "starts_new line \<longleftrightarrow> (line \<noteq> [] \<and> is_upper (hd line)) \<or> starts_with [CHR 0x22] line"

fun para_loop :: "string list \<Rightarrow> string list \<Rightarrow> string list \<Rightarrow> string list" where
  "para_loop [] paragraphs current =
     (if current \<noteq> [] then paragraphs @ [finish_paragraph current] else paragraphs)"
| "para_loop (l # lines) paragraphs current =
     (let line = strip l in
      if line = [] then
        (if current \<noteq> [] then para_loop lines (paragraphs @ [finish_paragraph current]) []
         else para_loop lines paragraphs current)
      else if current \<noteq> [] then
        (if ends_sentence (last current) \<and> starts_new line \<and> length current > 2
         then para_loop lines (paragraphs @ [finish_paragraph current]) [line]
         else para_loop lines paragraphs (current @ [line]))
      else para_loop lines paragraphs (current @ [line]))"

definition paragraphs_of :: "string list \<Rightarrow> string list" where
  "paragraphs_of lines = para_loop lines [] []"

definition join_paragraphs :: "string list \<Rightarrow> string" where
  "join_paragraphs lines = join [CHR 0x0A, CHR 0x0A] (paragraphs_of lines)"

record discourse =
  metadata :: discourse_metadata
  content :: string

definition find_all_discourses :: "string list \<Rightarrow> discourse list" where
  "find_all_discourses lines =
     map (\<lambda>(meta, content_lines).
            \<lparr>metadata = meta, content = join_paragraphs content_lines\<rparr>)
         (content_spans lines (find_discourse_boundaries lines))"

text \<open>
  The part of \<^verbatim>\<open>main\<close> between page extraction and formatting: each page's lines are
  cleaned, the cleaned lines of all pages are put together, the hyphenation is fixed and
  the discourses are found.
\<close>

definition all_lines :: "string list list \<Rightarrow> string list" where
  "all_lines pages = fix_hyphenation (concat (map clean_page_text pages))"

definition core_pipeline :: "string list list \<Rightarrow> discourse list" where
  "core_pipeline pages = find_all_discourses (all_lines pages)"

section \<open>Predicates used to state the claims\<close>

text \<open>A line with a speaker or a location indicator.\<close>

definition indicator :: "string \<Rightarrow> bool" where
  "indicator l \<longleftrightarrow> has_speaker_indicator l \<or> has_location_indicator l"

text \<open>
  The window of the claim as it is worded: a verification line among the eight lines after
  line \<open>p\<close>.
\<close>

definition verified_after :: "string list \<Rightarrow> nat \<Rightarrow> bool" where
  "verified_after lines p =
     list_ex (\<lambda>k. has_verification (strip (lines ! k))) [p + 1..<min (p + 9) (length lines)]"

text \<open>
  \<open>emitted_at lines how j tls\<close>: the forward loop ended in the way \<open>how\<close> with a boundary
  whose \<^verbatim>\<open>title_end\<close> is \<open>j\<close>. The lookahead from \<open>j\<close> has verified; on an indicator hit
  the line before \<open>j\<close> carries the indicator, otherwise line \<open>j\<close> is the line that is not
  uppercase and a title line carries a speaker indicator.
\<close>

definition emitted_at :: "string list \<Rightarrow> walk_end \<Rightarrow> nat \<Rightarrow> string list \<Rightarrow> bool" where
  "emitted_at lines how j tls \<longleftrightarrow>
     verified lines j \<and> j \<le> length lines \<and>
     (if how = Verified_on_indicator
      then 0 < j \<and> indicator (strip (lines ! (j - 1)))
      else j < length lines \<and> \<not> isupper (strip (lines ! j)) \<and> list_ex has_speaker_indicator tls)"

text \<open>A line that the forward walk goes over: blank, a running header, or uppercase.\<close>

definition skipped_or_caps :: "string \<Rightarrow> bool" where
  "skipped_or_caps c \<longleftrightarrow> c = [] \<or> running_header c \<or> isupper c"

text \<open>
  The condition of a merge in the words of the specification: the line ends with a word
  character and a hyphen, followed by nothing but whitespace; the next line, trimmed,
  starts with a lowercase letter.
\<close>

definition hyphen_end :: "string \<Rightarrow> bool" where
  "hyphen_end line \<longleftrightarrow>
     (let r = rstrip line in
      r \<noteq> [] \<and> last r = CHR ''-'' \<and> butlast r \<noteq> [] \<and> is_word (last (butlast r)))"

definition lower_start :: "string \<Rightarrow> bool" where
  "lower_start nxt \<longleftrightarrow> strip nxt \<noteq> [] \<and> is_lower (hd (strip nxt))"

text \<open>
  The lines of a heading block that the loop of \<^verbatim>\<open>extract_metadata_from_block\<close> looks at:
  those before the first line that starts with \<^verbatim>\<open>REPORTED BY\<close>, where the loop breaks.
\<close>

definition scanned_lines :: "string list \<Rightarrow> string list" where
  "scanned_lines blk = takeWhile (\<lambda>l. \<not> starts_with ''REPORTED BY'' l) blk"

text \<open>
  For the filter of the content lines: a line that is not an echo of the title (its
  trimmed text is neither the title nor the title with a period), and a line that
  contains \<^verbatim>\<open>REPORTED BY\<close> or \<^verbatim>\<open>DELIVERED\<close>.
\<close>

definition kept_line :: "string \<Rightarrow> string \<Rightarrow> bool" where
  "kept_line ttl l \<longleftrightarrow> strip l \<noteq> ttl \<and> strip l \<noteq> ttl @ ''.''"

definition exempt_line :: "string \<Rightarrow> bool" where
  "exempt_line l \<longleftrightarrow> contains ''REPORTED BY'' (strip l) \<or> contains ''DELIVERED'' (strip l)"

section \<open>Example inputs\<close>

definition remarks_lines :: "string list" where
  "remarks_lines =
     [''Preface.'', ''More preface.'', ''REMARKS'', ''BY PRESIDENT BRIGHAM YOUNG,'',
      ''REPORTED BY G. D. WATT.'', ''Body text.'']"

definition bowery_lines :: "string list" where
  "bowery_lines =
     [''Preface.'', ''More preface.'', ''A DISCOURSE'', ''BY PRESIDENT BRIGHAM YOUNG,'',
      ''DELIVERED'', ''IN THE'', ''BOWERY,'', ''GREAT SALT LAKE CITY, JULY 1, 1855.'',
      ''REPORTED BY G. D. WATT.'', ''Body text here.'']"

definition priesthood_lines :: "string list" where
  "priesthood_lines =
     [''Preface.'', ''More preface.'', ''BY ELDER JOHN TAYLOR,'', ''ON THE PRIESTHOOD'',
      ''body text'']"

definition late_date_lines :: "string list" where
  "late_date_lines =
     [''Preface.'', ''More preface.'', ''REMARKS'', ''BY PRESIDENT BRIGHAM YOUNG,'',
      ''REPORTED BY G. D. WATT.'', ''DELIVERED JANUARY 1ST, 1860.'', ''Body text.'']"

definition dated_lines :: "string list" where
  "dated_lines =
     [''Preface.'', ''More preface.'', ''REMARKS'', ''BY PRESIDENT BRIGHAM YOUNG,'',
      ''DELIVERED IN THE TABERNACLE, JANUARY 1ST, 1860,'', ''AND REPEATED JULY 4, 1860.'',
      ''REPORTED BY G. D. WATT.'', ''Body text.'']"

definition echo_lines :: "string list" where
  "echo_lines =
     [''Preface.'', ''More preface.'', ''REMARKS'', ''BY PRESIDENT BRIGHAM YOUNG,'',
      ''REPORTED BY G. D. WATT.'', ''Body text.'', ''REMARKS'', ''More text.'']"

definition two_pages :: "string list list" where
  "two_pages =
     [[''12 JOURNAL OF DISCOURSES.'', ''Preface.'', '''', ''More preface.''],
      [''REMARKS'', ''BY PRESIDENT BRIGHAM YOUNG,'', ''  REPORTED BY G. D. WATT.'', '''',
       ''  Body text.'', '''', ''A second para-'', ''graph.'', ''13'']]"

definition far_reporter_lines :: "string list" where
  "far_reporter_lines =
     [''Preface.'', ''More preface.'', ''BY ELDER JOHN TAYLOR,'', ''A SERMON'', ''ON THE'',
      ''FIRST'', ''PRINCIPLES'', ''OF THE'', ''GOSPEL'', ''OF JESUS'', ''CHRIST'', ''OUR LORD'',
      ''as REPORTED BY G. D. Watt.'']"

definition chain_lines :: "string list" where
  "chain_lines = [''inter-'', ''national co-'', ''operation'']"

section \<open>Facts about the string primitives and the matcher\<close>

lemma word_not_space: "is_word c \<Longrightarrow> \<not> is_space c"
  by (auto simp: is_word_def is_space_def is_upper_def is_lower_def is_digit_def Let_def)

lemma hyphen_not_word: "\<not> is_word (CHR ''-'')"
  by (simp add: is_word_def is_upper_def is_lower_def is_digit_def Let_def)

lemma hyphen_not_space: "\<not> is_space (CHR ''-'')"
  by (simp add: is_space_def)

lemma upper_not_space: "is_upper c \<Longrightarrow> \<not> is_space c"
  by (auto simp: is_space_def is_upper_def Let_def)

lemma all_dropWhile: "(\<forall>c\<in>set (dropWhile P s). P c) \<longleftrightarrow> (\<forall>c\<in>set s. P c)"
proof
  assume a: "\<forall>c\<in>set (dropWhile P s). P c"
  have "dropWhile P s = []"
  proof (rule ccontr)
    assume "dropWhile P s \<noteq> []"
    then have "\<not> P (hd (dropWhile P s))" by (rule hd_dropWhile)
    moreover from \<open>dropWhile P s \<noteq> []\<close> have "hd (dropWhile P s) \<in> set (dropWhile P s)" by simp
    ultimately show False using a by blast
  qed
  then show "\<forall>c\<in>set s. P c" by (simp add: dropWhile_eq_Nil_conv)
next
  assume "\<forall>c\<in>set s. P c"
  then show "\<forall>c\<in>set (dropWhile P s). P c" by (auto dest: set_dropWhileD)
qed

lemma rstrip_Nil_iff: "rstrip s = [] \<longleftrightarrow> (\<forall>c\<in>set s. is_space c)"
  by (simp add: rstrip_def dropWhile_eq_Nil_conv)

lemma strip_Nil_iff: "strip s = [] \<longleftrightarrow> (\<forall>c\<in>set s. is_space c)"
  by (simp add: strip_def rstrip_Nil_iff all_dropWhile)

lemma rstrip_spaces: "\<forall>c\<in>set ws. is_space c \<Longrightarrow> rstrip (s @ ws) = rstrip s"
  using dropWhile_append2 [of "rev ws" is_space "rev s"] by (simp add: rstrip_def)

lemma rstrip_snoc: "\<not> is_space c \<Longrightarrow> rstrip (s @ [c]) = s @ [c]"
  by (simp add: rstrip_def)

lemma rstrip_idem: "rstrip (rstrip s) = rstrip s"
  by (simp add: rstrip_def)

lemma rstrip_prefix: "\<exists>n. rstrip s = take n s"
proof -
  have "rev s = takeWhile is_space (rev s) @ dropWhile is_space (rev s)" by simp
  then have "s = rev (dropWhile is_space (rev s)) @ rev (takeWhile is_space (rev s))"
    by (metis rev_append rev_rev_ident)
  then have "take (length (rstrip s)) s = rstrip s"
    unfolding rstrip_def by (metis append_eq_conv_conj)
  then show ?thesis by metis
qed

lemma lstrip_rstrip: "dropWhile is_space (rstrip (dropWhile is_space s)) = rstrip (dropWhile is_space s)"
proof (cases "rstrip (dropWhile is_space s) = []")
  case True
  then show ?thesis by simp
next
  case False
  let ?u = "dropWhile is_space s"
  obtain n where n: "rstrip ?u = take n ?u" using rstrip_prefix by blast
  with False have "?u \<noteq> []" "0 < n" by auto
  then have "hd (rstrip ?u) = hd ?u" using n by (simp add: hd_take)
  moreover from \<open>?u \<noteq> []\<close> have "\<not> is_space (hd ?u)" by (rule hd_dropWhile)
  ultimately have "\<not> is_space (hd (rstrip ?u))" by simp
  with False show ?thesis by (cases "rstrip ?u") auto
qed

lemma strip_idem: "strip (strip s) = strip s"
  by (simp add: strip_def lstrip_rstrip rstrip_idem)

lemma strip_has_nonspace: "c \<in> set s \<Longrightarrow> \<not> is_space c \<Longrightarrow> strip s \<noteq> []"
  by (auto simp: strip_Nil_iff)

lemma first_some_SomeD: "first_some f xs = Some y \<Longrightarrow> \<exists>x\<in>set xs. f x = Some y"
  by (induction xs) (auto split: option.splits)

lemma first_some_hd: "f x = Some y \<Longrightarrow> first_some f (x # xs) = Some y"
  by simp

lemma first_split_ConsD:
  "first_split (it # its) prev s = Some ns \<Longrightarrow>
   \<exists>n ns'. ns = n # ns' \<and> n \<in> set (cands it prev s)
          \<and> first_split its (prev_after prev n s) (drop n s) = Some ns'"
  by (auto dest!: first_some_SomeD)

lemma rx_search_from_SomeD:
  "rx_search_from its prev s pos = Some (q, ns) \<Longrightarrow>
   \<exists>k\<le>length s. q = pos + k \<and> first_split its (prev_after prev k s) (drop k s) = Some ns"
proof (induction s arbitrary: prev pos)
  case Nil
  then show ?case by (auto simp: prev_after_def split: option.splits)
next
  case (Cons c cs)
  show ?case
  proof (cases "first_split its prev (c # cs)")
    case (Some a)
    with Cons.prems have "q = pos" "ns = a" by simp_all
    with Some show ?thesis by (intro exI [of _ 0]) (simp add: prev_after_def)
  next
    case None
    with Cons.prems have "rx_search_from its (Some c) cs (Suc pos) = Some (q, ns)" by simp
    from Cons.IH [OF this] obtain k where k: "k \<le> length cs" "q = Suc pos + k"
      "first_split its (prev_after (Some c) k cs) (drop k cs) = Some ns" by blast
    have "prev_after (Some c) k cs = prev_after prev (Suc k) (c # cs)"
      by (cases k) (simp_all add: prev_after_def)
    with k show ?thesis by (intro exI [of _ "Suc k"]) simp
  qed
qed

lemma rx_search_from_NoneD:
  "rx_search_from its prev s pos = None \<Longrightarrow> k \<le> length s \<Longrightarrow>
   first_split its (prev_after prev k s) (drop k s) = None"
proof (induction s arbitrary: prev pos k)
  case Nil
  then show ?case by (auto simp: prev_after_def split: option.splits)
next
  case (Cons c cs)
  from Cons.prems(1) have here: "first_split its prev (c # cs) = None"
    and rest: "rx_search_from its (Some c) cs (Suc pos) = None"
    by (auto split: option.splits)
  show ?case
  proof (cases k)
    case 0
    with here show ?thesis by (simp add: prev_after_def)
  next
    case (Suc k')
    with Cons.prems(2) have "k' \<le> length cs" by simp
    from Cons.IH [OF rest this]
    have "first_split its (prev_after (Some c) k' cs) (drop k' cs) = None" .
    moreover have "prev_after (Some c) k' cs = prev_after prev (Suc k') (c # cs)"
      by (cases k') (simp_all add: prev_after_def)
    ultimately show ?thesis using Suc by simp
  qed
qed

lemma rx_search_SomeD:
  "rx_search its s = Some (p, ns) \<Longrightarrow>
   p \<le> length s \<and> first_split its (prev_after None p s) (drop p s) = Some ns"
  unfolding rx_search_def by (auto dest!: rx_search_from_SomeD)

lemma rx_search_NoneD:
  "rx_search its s = None \<Longrightarrow> p \<le> length s \<Longrightarrow>
   first_split its (prev_after None p s) (drop p s) = None"
  unfolding rx_search_def by (rule rx_search_from_NoneD)

lemma greedy_candD:
  "n \<in> set (cands (Greedy P lo None) prev s) \<Longrightarrow> lo \<le> n \<and> n \<le> length (takeWhile P s)"
  by (auto simp: Let_def)

lemma take_takeWhile_all: "n \<le> length (takeWhile P s) \<Longrightarrow> \<forall>c\<in>set (take n s). P c"
proof -
  assume "n \<le> length (takeWhile P s)"
  then have "take n s = take n (takeWhile P s)"
    by (metis append_eq_conv_conj takeWhile_dropWhile_id take_all_iff take_take min.absorb1 order_refl take_append)
  then show ?thesis by (auto dest: in_set_takeD set_takeWhileD)
qed

subsection \<open>The hyphen pattern\<close>

declare first_split.simps(2) [simp del] cands.simps [simp del]

lemma first_split_Lit:
  "first_split (Lit l # its) prev s =
     (if starts_with l s
      then map_option ((#) (length l))
             (first_split its (prev_after prev (length l) s) (drop (length l) s))
      else None)"
  by (simp add: first_split.simps cands.simps split: option.splits)

lemma first_split_Eol:
  "first_split [Eol] prev s = (if s = [] \<or> s = [CHR 0x0A] then Some [0] else None)"
  by (simp add: first_split.simps cands.simps)

lemma first_split_greedy_all:
  assumes "lo \<le> length (takeWhile P s)"
    and "first_split its (prev_after prev (length (takeWhile P s)) s)
           (drop (length (takeWhile P s)) s) = Some r"
  shows "first_split (Greedy P lo None # its) prev s = Some (length (takeWhile P s) # r)"
proof -
  let ?k = "length (takeWhile P s)"
  from assms(1) have "rev [lo..<Suc ?k] = ?k # rev [lo..<?k]" by simp
  then have "cands (Greedy P lo None) prev s = ?k # rev [lo..<?k]"
    by (simp add: cands.simps Let_def)
  then show ?thesis using assms(2) by (simp add: first_split.simps)
qed

lemma hyphen_split_match:
  assumes "is_word c" and "\<forall>x\<in>set ws. is_space x"
  shows "first_split pat_hyphen prev (c # CHR ''-'' # ws) \<noteq> None"
proof -
  from assms(2) have tw: "takeWhile is_space ws = ws" by (simp add: takeWhile_eq_all_conv)
  have "first_split (sp0 # [Eol]) pv ws = Some (length (takeWhile is_space ws) # [0])" for pv
    by (rule first_split_greedy_all) (simp_all add: tw first_split_Eol)
  then have a: "first_split [sp0, Eol] pv ws = Some [length ws, 0]" for pv
    by (simp only: tw)
  have b: "first_split [Lit ''-'', sp0, Eol] pv (CHR ''-'' # ws) = Some [1, length ws, 0]" for pv
    by (simp only: first_split_Lit) (simp add: starts_with_def a)
  from assms(1) have tk: "takeWhile is_word (c # CHR ''-'' # ws) = [c]"
    by (simp add: hyphen_not_word)
  have "first_split (Greedy is_word 1 None # [Lit ''-'', sp0, Eol]) prev (c # CHR ''-'' # ws)
        = Some (length (takeWhile is_word (c # CHR ''-'' # ws)) # [1, length ws, 0])"
    by (rule first_split_greedy_all) (simp_all only: tk, simp_all add: b)
  then show ?thesis by (simp add: pat_hyphen_def del: first_split.simps)
qed

lemma hyphen_matchD:
  assumes "first_split pat_hyphen prev s = Some ns"
  shows "\<exists>n ns' ws. ns = n # ns' \<and> 1 \<le> n \<and> n \<le> length s
                \<and> (\<forall>c\<in>set (take n s). is_word c)
                \<and> s = take n s @ CHR ''-'' # ws \<and> (\<forall>c\<in>set ws. is_space c)"
proof -
  from assms obtain n ns1 where n: "ns = n # ns1"
    "n \<in> set (cands (Greedy is_word 1 None) prev s)"
    "first_split [Lit ''-'', sp0, Eol] (prev_after prev n s) (drop n s) = Some ns1"
    unfolding pat_hyphen_def by (blast dest: first_split_ConsD)
  from greedy_candD [OF n(2)] have nb: "1 \<le> n" "n \<le> length (takeWhile is_word s)"
    by simp_all
  then have nl: "n \<le> length s" using length_takeWhile_le [of is_word s] by linarith
  from nb have w: "\<forall>c\<in>set (take n s). is_word c" by (simp add: take_takeWhile_all)
  from n(3) obtain m ns2 where m: "ns1 = m # ns2"
    "m \<in> set (cands (Lit ''-'') (prev_after prev n s) (drop n s))"
    "first_split [sp0, Eol] (prev_after (prev_after prev n s) m (drop n s)) (drop m (drop n s)) = Some ns2"
    by (blast dest: first_split_ConsD)
  from m(2) have m1: "m = 1" and hy: "starts_with ''-'' (drop n s)"
    by (auto simp: cands.simps split: if_splits)
  from hy obtain rest where rest: "drop n s = CHR ''-'' # rest"
    by (cases "drop n s") (auto simp: starts_with_def)
  define pv where "pv = prev_after (prev_after prev n s) m (drop n s)"
  from m(3) m1 rest have "first_split [sp0, Eol] pv rest = Some ns2"
    by (simp add: pv_def)
  from first_split_ConsD [OF this] obtain j ns3 where j: "ns2 = j # ns3"
    "j \<in> set (cands sp0 pv rest)"
    "first_split [Eol] (prev_after pv j rest) (drop j rest) = Some ns3"
    by blast
  from greedy_candD [OF j(2)] have jb: "j \<le> length (takeWhile is_space rest)" by simp
  then have jsp: "\<forall>c\<in>set (take j rest). is_space c" by (simp add: take_takeWhile_all)
  from j(3) have fin: "drop j rest = [] \<or> drop j rest = [CHR 0x0A]"
    by (auto simp: first_split_Eol split: if_splits)
  have nlsp: "is_space (CHR 0x0A)" by (simp add: is_space_def)
  have rsp: "\<forall>c\<in>set rest. is_space c"
  proof
    fix c
    assume "c \<in> set rest"
    then have "c \<in> set (take j rest) \<or> c \<in> set (drop j rest)"
      by (metis Un_iff append_take_drop_id set_append)
    then show "is_space c" using jsp fin nlsp by auto
  qed
  have "s = take n s @ drop n s" by simp
  with rest have "s = take n s @ CHR ''-'' # rest" by simp
  with n(1) nb(1) nl w rsp show ?thesis by blast
qed

text \<open>What a match of the hyphen pattern says about the line, and conversely.\<close>

lemma hyphen_search_Some:
  assumes "rx_search pat_hyphen line = Some (p, ns)"
  shows "hyphen_end line \<and> take p line @ seg line p ns 0 1 = butlast (rstrip line)
         \<and> (\<exists>c\<in>set (seg line p ns 0 1). is_word c)"
proof -
  from assms have pl: "p \<le> length line"
    and fs: "first_split pat_hyphen (prev_after None p line) (drop p line) = Some ns"
    by (auto dest: rx_search_SomeD)
  from hyphen_matchD [OF fs] obtain n ns' ws where h: "ns = n # ns'" "1 \<le> n"
    "n \<le> length (drop p line)" "\<forall>c\<in>set (take n (drop p line)). is_word c"
    "drop p line = take n (drop p line) @ CHR ''-'' # ws" "\<forall>c\<in>set ws. is_space c"
    by blast
  let ?w = "take n (drop p line)"
  from h(1) have sg: "seg line p ns 0 1 = ?w" by (simp add: seg_def)
  from h(2,3) have wne: "?w \<noteq> []" by auto
  have "line = take p line @ drop p line" by simp
  with h(5) have line: "line = (take p line @ ?w @ [CHR ''-'']) @ ws" by simp
  have "rstrip line = rstrip (take p line @ ?w @ [CHR ''-''])"
    by (subst line) (rule rstrip_spaces [OF h(6)])
  also have "\<dots> = (take p line @ ?w) @ [CHR ''-'']"
    using rstrip_snoc [OF hyphen_not_space, of "take p line @ ?w"] by simp
  finally have rs: "rstrip line = (take p line @ ?w) @ [CHR ''-'']" .
  from wne h(4) have lw: "is_word (last ?w)" by (meson last_in_set)
  from wne have lst: "last (take p line @ ?w) = last ?w" by simp
  from rs have bl: "butlast (rstrip line) = take p line @ ?w"
    by (simp only: butlast_snoc)
  from rs have la: "last (rstrip line) = CHR ''-''" by (simp only: last_snoc)
  from rs have ne: "rstrip line \<noteq> []" by simp
  from wne have "take p line @ ?w \<noteq> []" by simp
  with bl la ne lst lw have "hyphen_end line"
    unfolding hyphen_end_def Let_def by (simp only: simp_thms)
  moreover from bl sg have "take p line @ seg line p ns 0 1 = butlast (rstrip line)"
    by simp
  moreover from wne h(4) sg have "\<exists>c\<in>set (seg line p ns 0 1). is_word c"
    by (metis last_in_set)
  ultimately show ?thesis by blast
qed

lemma hyphen_search_None:
  assumes "rx_search pat_hyphen line = None"
  shows "\<not> hyphen_end line"
proof
  assume "hyphen_end line"
  then obtain u c where r: "rstrip line = (u @ [c]) @ [CHR ''-'']" and c: "is_word c"
    unfolding hyphen_end_def Let_def
    by (metis append_butlast_last_id)
  obtain n where n: "rstrip line = take n line" using rstrip_prefix by blast
  have "line = take n line @ drop n line" by simp
  with n have l: "line = rstrip line @ drop n line" by simp
  have "rstrip (rstrip line @ drop n line) = rstrip line" using l by simp
  have sp: "\<forall>x\<in>set (drop n line). is_space x"
  proof -
    have "rev line = takeWhile is_space (rev line) @ dropWhile is_space (rev line)" by simp
    then have "line = rstrip line @ rev (takeWhile is_space (rev line))"
      unfolding rstrip_def by (metis rev_append rev_rev_ident)
    with l have "drop n line = rev (takeWhile is_space (rev line))"
      by (metis same_append_eq)
    then show ?thesis by (auto dest: set_takeWhileD)
  qed
  from l r have line: "line = u @ c # CHR ''-'' # drop n line" by simp
  then have d: "drop (length u) line = c # CHR ''-'' # drop n line"
    by (metis append_eq_conv_conj)
  from line have "length u \<le> length line" by (metis le_add1 length_append)
  from rx_search_NoneD [OF assms this] d
  have "first_split pat_hyphen (prev_after None (length u) line) (c # CHR ''-'' # drop n line) = None"
    by simp
  with hyphen_split_match [OF c sp] show False by blast
qed

lemma fix_from_cursor:
  assumes "i + 1 < length lines"
  shows "fix_from lines i =
     (if hyphen_end (lines ! i) \<and> lower_start (lines ! (i + 1))
      then (butlast (rstrip (lines ! i)) @ strip (lines ! (i + 1))) # fix_from lines (i + 2)
      else lines ! i # fix_from lines (i + 1))"
proof (cases "rx_search pat_hyphen (lines ! i)")
  case None
  then have "\<not> hyphen_end (lines ! i)" by (rule hyphen_search_None)
  with None assms show ?thesis by (simp add: fix_from.simps [of lines i])
next
  case (Some a)
  obtain p ns where a: "a = (p, ns)" by (cases a)
  from Some a have h: "hyphen_end (lines ! i)"
    "take p (lines ! i) @ seg (lines ! i) p ns 0 1 = butlast (rstrip (lines ! i))"
    by (auto dest: hyphen_search_Some)
  from assms Some a h(1) show ?thesis
    by (simp add: fix_from.simps [of lines i] Let_def lower_start_def h(2) [symmetric])
qed

lemma fix_from_end: "length lines \<le> i \<Longrightarrow> fix_from lines i = []"
  by (simp add: fix_from.simps [of lines i])

lemma fix_from_last:
  assumes "i + 1 = length lines"
  shows "fix_from lines i = [lines ! i]"
proof -
  from assms have "i < length lines" "\<not> i + 1 < length lines" by simp_all
  moreover from assms have "fix_from lines (i + 1) = []" by (simp add: fix_from_end)
  ultimately show ?thesis by (simp add: fix_from.simps [of lines i])
qed

section \<open>Properties of the boundary detector\<close>

subsection \<open>What holds where a boundary is emitted\<close>

lemma verified_iff:
  "verified lines j \<longleftrightarrow>
     (\<exists>k. j \<le> k \<and> k < j + 8 \<and> k < length lines \<and> has_verification (strip (lines ! k)))"
  by (auto simp: verified_def list_ex_iff)

lemma after_caps_emits:
  "after_caps lines i (Suc j) tls (strip (lines ! j)) = Inl (how, j', tls') \<Longrightarrow> j < length lines \<Longrightarrow>
   how = Verified_on_indicator \<or> how = Verified_on_noncaps \<Longrightarrow> emitted_at lines how j' tls'"
  by (auto simp: after_caps_def emitted_at_def indicator_def split: if_splits)

lemma walk_step_emits:
  "walk_step lines i j tls = Inl (how, j', tls') \<Longrightarrow> j < length lines \<Longrightarrow>
   how = Verified_on_indicator \<or> how = Verified_on_noncaps \<Longrightarrow> emitted_at lines how j' tls'"
  apply (simp add: walk_step_def Let_def split: if_splits)
        apply (auto dest: after_caps_emits simp: emitted_at_def)
  done

lemma forward_walk_emits:
  "forward_walk lines i j tls = (how, j', tls') \<Longrightarrow>
   how = Verified_on_indicator \<or> how = Verified_on_noncaps \<Longrightarrow> emitted_at lines how j' tls'"
proof (induction lines i j tls rule: forward_walk.induct)
  case (1 lines i j tls)
  show ?case
  proof (cases "j < length lines")
    case False
    with "1.prems" show ?thesis by (auto simp: forward_walk.simps [of lines i j tls])
  next
    case True
    show ?thesis
    proof (cases "walk_step lines i j tls")
      case (Inl r)
      with True "1.prems" have "walk_step lines i j tls = Inl (how, j', tls')"
        by (simp add: forward_walk.simps [of lines i j tls])
      then show ?thesis using True "1.prems"(2) by (rule walk_step_emits)
    next
      case (Inr c)
      obtain j1 tls1 where c: "c = (j1, tls1)" by (cases c)
      from True Inr c "1.prems" have "forward_walk lines i j1 tls1 = (how, j', tls')"
        by (simp add: forward_walk.simps [of lines i j tls])
      then show ?thesis
        using "1.IH" [OF True Inr c [symmetric]] "1.prems"(2) by simp
    qed
  qed
qed

lemma scan_step_emits:
  "scan_step lines i e = (i', e', Some b) \<Longrightarrow>
   \<exists>how. emitted_at lines how (title_end b) (title_lines b)"
  by (auto simp: scan_step_def Let_def split: if_splits prod.splits
           dest!: forward_walk_emits)

lemma scan_emits:
  "b \<in> set (scan lines i e) \<Longrightarrow> \<exists>how. emitted_at lines how (title_end b) (title_lines b)"
proof (induction lines i e rule: scan.induct)
  case (1 lines i e)
  show ?case
  proof (cases "i < length lines")
    case False
    with "1.prems" show ?thesis by (simp add: scan.simps [of lines i e])
  next
    case True
    obtain i' e' out where st: "scan_step lines i e = (i', e', out)"
      by (cases "scan_step lines i e")
    from "1.prems" True st have "b \<in> set (case out of None \<Rightarrow> [] | Some b \<Rightarrow> [b]) \<or> b \<in> set (scan lines i' e')"
      by (simp add: scan.simps [of lines i e])
    then show ?thesis
    proof
      assume "b \<in> set (case out of None \<Rightarrow> [] | Some b \<Rightarrow> [b])"
      then have "out = Some b" by (cases out) auto
      with st show ?thesis by (auto dest: scan_step_emits)
    next
      assume "b \<in> set (scan lines i' e')"
      then show ?thesis using "1.IH" [OF True st [symmetric] refl] by simp
    qed
  qed
qed

lemma isupper_nonempty: "isupper s \<Longrightarrow> s \<noteq> []"
  by (auto simp: isupper_def)

lemma walk_step_goes_on:
  "walk_step lines i j tls = Inr (j', tls') \<Longrightarrow> skipped_or_caps (strip (lines ! j))"
  by (auto simp: walk_step_def Let_def skipped_or_caps_def split: if_splits)

lemma walk_step_noncaps:
  "walk_step lines i j tls = Inl (how, j', tls') \<Longrightarrow>
   how = Failed_on_noncaps \<or> how = No_speaker_on_noncaps \<Longrightarrow>
   j' = j \<and> \<not> skipped_or_caps (strip (lines ! j))"
  by (simp add: walk_step_def after_caps_def Let_def skipped_or_caps_def split: if_splits)

lemma forward_walk_noncaps:
  "forward_walk lines i j tls = (how, j', tls') \<Longrightarrow>
   how = Failed_on_noncaps \<or> how = No_speaker_on_noncaps \<Longrightarrow>
   j' < length lines \<and> \<not> skipped_or_caps (strip (lines ! j'))
   \<and> (\<forall>k. j \<le> k \<and> k < j' \<longrightarrow> skipped_or_caps (strip (lines ! k)))"
proof (induction lines i j tls rule: forward_walk.induct)
  case (1 lines i j tls)
  show ?case
  proof (cases "j < length lines")
    case False
    with "1.prems" show ?thesis by (auto simp: forward_walk.simps [of lines i j tls])
  next
    case True
    show ?thesis
    proof (cases "walk_step lines i j tls")
      case (Inl r)
      with True "1.prems" have "walk_step lines i j tls = Inl (how, j', tls')"
        by (simp add: forward_walk.simps [of lines i j tls])
      from walk_step_noncaps [OF this "1.prems"(2)] True show ?thesis by auto
    next
      case (Inr c)
      obtain j1 tls1 where c: "c = (j1, tls1)" by (cases c)
      from Inr c have j1: "j1 = Suc j" by (auto dest: walk_step_continues)
      from Inr c have here: "skipped_or_caps (strip (lines ! j))"
        by (auto dest: walk_step_goes_on)
      from True Inr c "1.prems" have "forward_walk lines i j1 tls1 = (how, j', tls')"
        by (simp add: forward_walk.simps [of lines i j tls])
      from "1.IH" [OF True Inr c [symmetric] this "1.prems"(2)]
      have IH: "j' < length lines \<and> \<not> skipped_or_caps (strip (lines ! j'))
        \<and> (\<forall>k. j1 \<le> k \<and> k < j' \<longrightarrow> skipped_or_caps (strip (lines ! k)))" .
      have "skipped_or_caps (strip (lines ! k))" if "j \<le> k" "k < j'" for k
      proof (cases "k = j")
        case True
        with here show ?thesis by simp
      next
        case False
        with that j1 have "j1 \<le> k" by simp
        with IH that show ?thesis by blast
      qed
      with IH show ?thesis by blast
    qed
  qed
qed

subsection \<open>The order of the boundaries\<close>

text \<open>
  What the guard \<^verbatim>\<open>i < last_boundary_end + 3\<close> does give: a boundary starts before its
  \<^verbatim>\<open>title_end\<close>, which is a position of the line list, and from one boundary to the next
  \<^verbatim>\<open>title_end\<close> grows by more than three. The starts are not ordered by it.
\<close>

lemma look_back_start: "snd (look_back lines n tls st) \<le> max n st"
proof (induction n arbitrary: tls st)
  case 0
  show ?case by simp
next
  case (Suc n)
  have a: "snd (look_back lines n tls st) \<le> max (Suc n) st"
    using Suc.IH [of tls st] by simp
  have b: "snd (look_back lines n tls' n) \<le> max (Suc n) st" for tls'
    using Suc.IH [of tls' n] by simp
  show ?case using a b by (simp add: Let_def)
qed

lemma walk_step_indicator:
  "walk_step lines i j tls = Inl (Verified_on_indicator, j', tls') \<Longrightarrow> j' = Suc j"
  by (simp add: walk_step_def after_caps_def Let_def split: if_splits)

lemma forward_walk_indicator:
  "forward_walk lines i j tls = (Verified_on_indicator, j', tls') \<Longrightarrow> j < j'"
proof (induction lines i j tls rule: forward_walk.induct)
  case (1 lines i j tls)
  show ?case
  proof (cases "j < length lines")
    case False
    with "1.prems" show ?thesis by (auto simp: forward_walk.simps [of lines i j tls])
  next
    case True
    show ?thesis
    proof (cases "walk_step lines i j tls")
      case (Inl r)
      with True "1.prems" have "walk_step lines i j tls = Inl (Verified_on_indicator, j', tls')"
        by (simp add: forward_walk.simps [of lines i j tls])
      from walk_step_indicator [OF this] show ?thesis by simp
    next
      case (Inr c)
      obtain j1 tls1 where c: "c = (j1, tls1)" by (cases c)
      from Inr c have j1: "j1 = Suc j" by (auto dest: walk_step_continues)
      from True Inr c "1.prems"
      have "forward_walk lines i j1 tls1 = (Verified_on_indicator, j', tls')"
        by (simp add: forward_walk.simps [of lines i j tls])
      with "1.IH" [OF True Inr c [symmetric]] have "j1 < j'" by simp
      with j1 show ?thesis by simp
    qed
  qed
qed

lemma scan_step_emits_bounds:
  assumes "scan_step lines i e = (i', e', Some b)"
  shows "e + 3 \<le> int i \<and> start b \<le> i \<and> i < title_end b \<and> title_end b \<le> length lines
         \<and> e' = int (title_end b)"
proof -
  from assms have guard: "\<not> int i < e + 3" and caps: "isupper (strip (lines ! i))"
    by (auto simp: scan_step_def Let_def split: if_splits)
  obtain tls0 st where lb: "look_back lines i [] i = (tls0, st)"
    by (cases "look_back lines i [] i")
  obtain how j tls where fw: "forward_walk lines i i tls0 = (how, j, tls)"
    by (cases "forward_walk lines i i tls0")
  from assms lb fw have how: "how = Verified_on_indicator \<or> how = Verified_on_noncaps"
    and b: "b = \<lparr>start = st, title_end = j, title_lines = tls\<rparr>" and e': "e' = int j"
    by (auto simp: scan_step_def Let_def split: if_splits)
  from look_back_start [of lines i "[]" i] lb have st: "st \<le> i" by simp
  from forward_walk_emits [OF fw how] have em: "emitted_at lines how j tls" .
  then have jl: "j \<le> length lines" by (simp add: emitted_at_def)
  have "i < j"
  proof (cases "how = Verified_on_indicator")
    case True
    with fw show ?thesis by (auto dest: forward_walk_indicator)
  next
    case False
    with em have "\<not> isupper (strip (lines ! j))" by (simp add: emitted_at_def)
    with caps have "j \<noteq> i" by auto
    moreover from fw have "i \<le> j" by (rule forward_walk_advances)
    ultimately show ?thesis by simp
  qed
  with guard st jl b e' show ?thesis by simp
qed

lemma scan_step_keeps_end: "scan_step lines i e = (i', e', None) \<Longrightarrow> e' = e"
  by (auto simp: scan_step_def Let_def split: if_splits prod.splits)

lemma scan_bounds:
  "b \<in> set (scan lines i e) \<Longrightarrow>
   e + 3 < int (title_end b) \<and> i < title_end b \<and> start b < title_end b
   \<and> title_end b \<le> length lines"
proof (induction lines i e rule: scan.induct)
  case (1 lines i e)
  show ?case
  proof (cases "i < length lines")
    case False
    with "1.prems" show ?thesis by (simp add: scan.simps [of lines i e])
  next
    case True
    obtain i' e' out where st: "scan_step lines i e = (i', e', out)"
      by (cases "scan_step lines i e")
    from st have ii: "i < i'" by (rule scan_step_advances)
    from "1.prems" True st
    have "b \<in> set (case out of None \<Rightarrow> [] | Some b \<Rightarrow> [b]) \<or> b \<in> set (scan lines i' e')"
      by (simp add: scan.simps [of lines i e])
    then show ?thesis
    proof
      assume "b \<in> set (case out of None \<Rightarrow> [] | Some b \<Rightarrow> [b])"
      then have "out = Some b" by (cases out) auto
      with st have "scan_step lines i e = (i', e', Some b)" by simp
      from scan_step_emits_bounds [OF this] show ?thesis by auto
    next
      assume "b \<in> set (scan lines i' e')"
      from "1.IH" [OF True st [symmetric] refl this]
      have IH: "e' + 3 < int (title_end b)" "i' < title_end b" "start b < title_end b"
        "title_end b \<le> length lines" by simp_all
      have "e \<le> e'"
      proof (cases out)
        case None
        with st show ?thesis by (auto dest: scan_step_keeps_end)
      next
        case (Some b0)
        with st have "scan_step lines i e = (i', e', Some b0)" by simp
        from scan_step_emits_bounds [OF this] show ?thesis by auto
      qed
      with IH ii show ?thesis by auto
    qed
  qed
qed

lemma scan_sorted: "sorted_wrt (\<lambda>a b. title_end a + 3 < title_end b) (scan lines i e)"
proof (induction lines i e rule: scan.induct)
  case (1 lines i e)
  show ?case
  proof (cases "i < length lines")
    case False
    then show ?thesis by (simp add: scan.simps [of lines i e])
  next
    case True
    obtain i' e' out where st: "scan_step lines i e = (i', e', out)"
      by (cases "scan_step lines i e")
    from "1.IH" [OF True st [symmetric] refl]
    have IH: "sorted_wrt (\<lambda>a b. title_end a + 3 < title_end b) (scan lines i' e')" .
    show ?thesis
    proof (cases out)
      case None
      with True st IH show ?thesis by (simp add: scan.simps [of lines i e])
    next
      case (Some b0)
      with st have "scan_step lines i e = (i', e', Some b0)" by simp
      from scan_step_emits_bounds [OF this] have e': "e' = int (title_end b0)" by simp
      have "\<forall>b\<in>set (scan lines i' e'). title_end b0 + 3 < title_end b"
        using e' by (auto dest!: scan_bounds)
      with True st Some IH show ?thesis by (simp add: scan.simps [of lines i e])
    qed
  qed
qed

lemma title_ends_increase:
  "sorted_wrt (\<lambda>a b. title_end a + 3 < title_end b) (find_discourse_boundaries lines)
   \<and> (\<forall>b\<in>set (find_discourse_boundaries lines).
        start b < title_end b \<and> title_end b \<le> length lines)"
  unfolding find_discourse_boundaries_def using scan_sorted [of lines 0 "- 1"]
  by (auto dest: scan_bounds)

section \<open>Facts about paragraphs and the cleaned lines\<close>

subsection \<open>The paragraph loop\<close>

lemma para_loop_acc: "para_loop ls (P @ Q) cur = P @ para_loop ls Q cur"
  by (induction ls arbitrary: Q cur) (simp_all add: Let_def)

lemma para_loop_acc0: "para_loop ls P cur = P @ para_loop ls [] cur"
  using para_loop_acc [of ls P "[]" cur] by simp

lemma para_loop_blank:
  "strip b = [] \<Longrightarrow>
   para_loop (xs @ b # ys) P cur = para_loop xs P cur @ para_loop ys [] []"
proof (induction xs arbitrary: P cur)
  case Nil
  then show ?case
    using para_loop_acc0 [of ys "P @ [finish_paragraph cur]" "[]"] para_loop_acc0 [of ys P "[]"]
    by simp
next
  case (Cons x xs)
  then show ?case by (simp add: Let_def)
qed

lemma para_loop_last_line:
  "strip a \<noteq> [] \<Longrightarrow>
   \<exists>P' cur'. para_loop (xs @ [a]) P cur = P' @ [finish_paragraph (cur' @ [strip a])]"
proof (induction xs arbitrary: P cur)
  case Nil
  show ?case
  proof (cases "cur \<noteq> [] \<and> ends_sentence (last cur) \<and> starts_new (strip a) \<and> length cur > 2")
    case True
    with Nil have "para_loop ([] @ [a]) P cur
                   = (P @ [finish_paragraph cur]) @ [finish_paragraph ([] @ [strip a])]"
      by (simp add: Let_def)
    then show ?thesis by blast
  next
    case False
    with Nil have "para_loop ([] @ [a]) P cur = P @ [finish_paragraph (cur @ [strip a])]"
      by (auto simp: Let_def)
    then show ?thesis by blast
  qed
next
  case (Cons x xs)
  from Cons.IH [OF Cons.prems] show ?case by (simp add: Let_def)
qed

lemma para_loop_first_line:
  "cur \<noteq> [] \<Longrightarrow> \<exists>more rest. para_loop ls [] cur = finish_paragraph (cur @ more) # rest"
proof (induction ls arbitrary: cur)
  case Nil
  then have "para_loop [] [] cur = finish_paragraph (cur @ []) # []" by simp
  then show ?case by blast
next
  case (Cons x xs)
  consider (blank) "strip x = []"
    | (soft) "strip x \<noteq> []" "ends_sentence (last cur) \<and> starts_new (strip x) \<and> length cur > 2"
    | (append) "strip x \<noteq> []" "\<not> (ends_sentence (last cur) \<and> starts_new (strip x) \<and> length cur > 2)"
    by blast
  then show ?case
  proof cases
    case blank
    with Cons.prems have "para_loop (x # xs) [] cur = para_loop xs [finish_paragraph cur] []"
      by (simp add: Let_def)
    then have "para_loop (x # xs) [] cur = finish_paragraph (cur @ []) # para_loop xs [] []"
      using para_loop_acc0 [of xs "[finish_paragraph cur]" "[]"] by simp
    then show ?thesis by blast
  next
    case soft
    with Cons.prems
    have "para_loop (x # xs) [] cur = para_loop xs [finish_paragraph cur] [strip x]"
      by (simp add: Let_def)
    then have "para_loop (x # xs) [] cur
               = finish_paragraph (cur @ []) # para_loop xs [] [strip x]"
      using para_loop_acc0 [of xs "[finish_paragraph cur]" "[strip x]"] by simp
    then show ?thesis by blast
  next
    case append
    with Cons.prems have "para_loop (x # xs) [] cur = para_loop xs [] (cur @ [strip x])"
      by (auto simp: Let_def)
    moreover from Cons.IH [of "cur @ [strip x]"] obtain more rest
      where "para_loop xs [] (cur @ [strip x]) = finish_paragraph ((cur @ [strip x]) @ more) # rest"
      by auto
    ultimately have "para_loop (x # xs) [] cur = finish_paragraph (cur @ (strip x # more)) # rest"
      by simp
    then show ?thesis by blast
  qed
qed

lemma blank_separates:
  assumes "strip blank = []" and "strip a \<noteq> []" and "strip b \<noteq> []"
  shows "\<exists>before cur more after.
           paragraphs_of (pre @ [a, blank, b] @ post)
           = before @ [finish_paragraph (cur @ [strip a]), finish_paragraph (strip b # more)] @ after"
proof -
  have "pre @ [a, blank, b] @ post = (pre @ [a]) @ blank # (b # post)" by simp
  then have "paragraphs_of (pre @ [a, blank, b] @ post)
             = para_loop (pre @ [a]) [] [] @ para_loop (b # post) [] []"
    unfolding paragraphs_of_def using para_loop_blank [OF assms(1)] by metis
  moreover from para_loop_last_line [OF assms(2)] obtain before cur
    where "para_loop (pre @ [a]) [] [] = before @ [finish_paragraph (cur @ [strip a])]"
    by blast
  moreover have "para_loop (b # post) [] [] = para_loop post [] [strip b]"
    using assms(3) by (simp add: Let_def)
  moreover from para_loop_first_line [of "[strip b]" post] obtain more after
    where "para_loop post [] [strip b] = finish_paragraph ([strip b] @ more) # after"
    by auto
  ultimately have "paragraphs_of (pre @ [a, blank, b] @ post)
      = before @ [finish_paragraph (cur @ [strip a]), finish_paragraph (strip b # more)] @ after"
    by simp
  then show ?thesis by blast
qed

subsection \<open>Cleaned lines are not blank\<close>

lemma header_footer_empty: "strip l = [] \<Longrightarrow> is_page_header_footer l"
  by (simp add: is_page_header_footer_def)

lemma clean_page_text_lines:
  "l \<in> set (clean_page_text page_lines) \<Longrightarrow> l \<noteq> [] \<and> strip l = l"
proof (induction page_lines)
  case Nil
  then show ?case by simp
next
  case (Cons x xs)
  show ?case
  proof (cases "l = strip x \<and> \<not> is_page_header_footer (strip x)")
    case True
    then have "strip (strip x) \<noteq> []" using header_footer_empty by blast
    with True show ?thesis by (simp add: strip_idem)
  next
    case False
    with Cons.prems have "l \<in> set (clean_page_text xs)" by (auto simp: Let_def split: if_splits)
    then show ?thesis by (rule Cons.IH)
  qed
qed

lemma merged_not_blank:
  assumes "hyphen_end line"
  shows "strip (butlast (rstrip line) @ nxt) \<noteq> []"
proof -
  from assms have "butlast (rstrip line) \<noteq> []" "is_word (last (butlast (rstrip line)))"
    by (simp_all add: hyphen_end_def Let_def)
  then have "last (butlast (rstrip line)) \<in> set (butlast (rstrip line) @ nxt)"
    "\<not> is_space (last (butlast (rstrip line)))"
    by (simp_all add: word_not_space)
  then show ?thesis by (rule strip_has_nonspace)
qed

lemma fix_from_not_blank:
  assumes "\<forall>l\<in>set lines. strip l \<noteq> []"
  shows "l \<in> set (fix_from lines i) \<Longrightarrow> strip l \<noteq> []"
proof (induction "length lines - i" arbitrary: i rule: less_induct)
  case less
  consider (past) "length lines \<le> i" | (final) "i + 1 = length lines" | (inner) "i + 1 < length lines"
    by linarith
  then show ?case
  proof cases
    case past
    with less.prems show ?thesis by (simp add: fix_from_end)
  next
    case final
    with less.prems have "l = lines ! i" by (simp add: fix_from_last)
    with final assms show ?thesis by simp
  next
    case inner
    show ?thesis
    proof (cases "hyphen_end (lines ! i) \<and> lower_start (lines ! (i + 1))")
      case True
      with inner less.prems
      have "l = butlast (rstrip (lines ! i)) @ strip (lines ! (i + 1))
            \<or> l \<in> set (fix_from lines (i + 2))"
        by (simp add: fix_from_cursor)
      then show ?thesis
      proof
        assume "l = butlast (rstrip (lines ! i)) @ strip (lines ! (i + 1))"
        with True show ?thesis by (simp add: merged_not_blank)
      next
        assume "l \<in> set (fix_from lines (i + 2))"
        moreover from inner have "length lines - (i + 2) < length lines - i" by simp
        ultimately show ?thesis by (rule less.hyps [rotated])
      qed
    next
      case False
      with inner less.prems have "l = lines ! i \<or> l \<in> set (fix_from lines (i + 1))"
        by (auto simp: fix_from_cursor)
      then show ?thesis
      proof
        assume "l = lines ! i"
        with inner assms show ?thesis by simp
      next
        assume "l \<in> set (fix_from lines (i + 1))"
        moreover from inner have "length lines - (i + 1) < length lines - i" by simp
        ultimately show ?thesis by (rule less.hyps [rotated])
      qed
    qed
  qed
qed

lemma all_lines_not_blank:
  assumes "l \<in> set (all_lines pages)"
  shows "strip l \<noteq> []"
proof -
  have nb: "\<forall>x\<in>set (concat (map clean_page_text pages)). strip x \<noteq> []"
    by (auto dest!: clean_page_text_lines)
  from assms have "l \<in> set (fix_from (concat (map clean_page_text pages)) 0)"
    by (simp add: all_lines_def fix_hyphenation_def)
  with nb show ?thesis by (rule fix_from_not_blank)
qed

lemma filter_title_lines_subset: "x \<in> set (filter_title_lines ttl ls started) \<Longrightarrow> x \<in> set ls"
  by (induction ls arbitrary: started) (auto simp: Let_def split: if_splits)

lemma slice_subset: "x \<in> set (slice xs a b) \<Longrightarrow> x \<in> set xs"
  unfolding slice_def by (meson in_set_dropD in_set_takeD)

lemma content_lines_of_subset: "x \<in> set (content_lines_of lines meta a b) \<Longrightarrow> x \<in> set lines"
  unfolding content_lines_of_def Let_def
  by (auto split: if_splits dest: filter_title_lines_subset slice_subset)

lemma content_spans_subset:
  "(meta, cl) \<in> set (content_spans lines bs) \<Longrightarrow> x \<in> set cl \<Longrightarrow> x \<in> set lines"
proof (induction bs)
  case Nil
  then show ?case by simp
next
  case (Cons b bs)
  from Cons.prems(1) have "(\<exists>m a e. cl = content_lines_of lines m a e)
      \<or> (meta, cl) \<in> set (content_spans lines bs)"
    by (auto simp: Let_def)
  then show ?case
  proof
    assume "\<exists>m a e. cl = content_lines_of lines m a e"
    with Cons.prems(2) show ?thesis by (auto dest: content_lines_of_subset)
  next
    assume "(meta, cl) \<in> set (content_spans lines bs)"
    then show ?thesis using Cons.prems(2) by (rule Cons.IH)
  qed
qed

section \<open>Facts about the metadata of a heading block\<close>

lemma greedy_first_nonempty:
  assumes "first_split (Greedy P lo None # its) prev s = Some ns" and "0 < lo"
  shows "s \<noteq> [] \<and> (\<exists>n ns'. ns = n # ns' \<and> 0 < n)"
proof -
  from first_split_ConsD [OF assms(1)] obtain n ns' where n: "ns = n # ns'"
    "n \<in> set (cands (Greedy P lo None) prev s)" by blast
  from greedy_candD [OF n(2)] have "lo \<le> n" "n \<le> length (takeWhile P s)" by simp_all
  moreover have "length (takeWhile P s) \<le> length s" by (rule length_takeWhile_le)
  ultimately show ?thesis using n(1) assms(2) by auto
qed

lemma date_search_nonempty:
  assumes "date_search l = Some d"
  shows "d \<noteq> []"
proof -
  from assms obtain p ns where s: "rx_search pat_date l = Some (p, ns)" and d: "d = seg l p ns 0 7"
    by (auto simp: date_search_def split: option.splits)
  from rx_search_SomeD [OF s]
  have "first_split pat_date (prev_after None p l) (drop p l) = Some ns" by simp
  then have "drop p l \<noteq> [] \<and> (\<exists>n ns'. ns = n # ns' \<and> 0 < n)"
    unfolding pat_date_def by (rule greedy_first_nonempty) simp
  then obtain n ns' where "drop p l \<noteq> []" "ns = n # ns'" "0 < n" by blast
  with d show ?thesis by (simp add: seg_def)
qed

lemma scan_line_date:
  "date_field (scan_line line st) =
     (if date_field st = [] then (case date_search line of Some d \<Rightarrow> d | None \<Rightarrow> [])
      else date_field st)"
  by (simp add: scan_line_def Let_def split: option.splits)

lemma scan_block_date_kept:
  "date_field st \<noteq> [] \<Longrightarrow> date_field (scan_block ls st) = date_field st"
  by (induction ls arbitrary: st) (simp_all add: scan_line_date)

lemma scan_block_first_date:
  assumes "date_field st = []"
    and "List.find (\<lambda>l. date_search l \<noteq> None) (scanned_lines ls) = Some l"
  shows "date_search l = Some (date_field (scan_block ls st))"
  using assms
proof (induction ls arbitrary: st)
  case Nil
  then show ?case by (simp add: scanned_lines_def)
next
  case (Cons x xs)
  show ?case
  proof (cases "starts_with ''REPORTED BY'' x")
    case True
    with Cons.prems(2) show ?thesis by (simp add: scanned_lines_def)
  next
    case False
    show ?thesis
    proof (cases "date_search x")
      case None
      with False Cons.prems have "date_field (scan_line x st) = []"
        and "List.find (\<lambda>l. date_search l \<noteq> None) (scanned_lines xs) = Some l"
        by (simp_all add: scan_line_date scanned_lines_def)
      from Cons.IH [OF this] False show ?thesis by simp
    next
      case (Some d)
      with False Cons.prems(2) have l: "l = x" by (simp add: scanned_lines_def)
      from Some Cons.prems(1) have "date_field (scan_line x st) = d" by (simp add: scan_line_date)
      moreover from date_search_nonempty [OF Some] have "d \<noteq> []" .
      ultimately have "date_field (scan_block xs (scan_line x st)) = d"
        by (simp add: scan_block_date_kept)
      with False Some l show ?thesis by simp
    qed
  qed
qed

lemma metadata_date:
  "date (extract_metadata_from_block lines s e) =
     (let st = scan_block (block_lines lines s e)
                 \<lparr>title_parts = [], speaker_parts = [], location_parts = [],
                  date_field = [], reporter_field = []\<rparr>;
          found = extract_location_and_date (join '' '' (location_parts st @ speaker_parts st))
      in if snd found \<noteq> [] \<and> date_field st = [] then snd found else date_field st)"
  by (simp add: extract_metadata_from_block_def Let_def)

section \<open>Facts about the filter of the content lines\<close>

lemma filter_title_lines_started:
  "filter_title_lines ttl ls True = filter (kept_line ttl) ls"
  by (induction ls) (auto simp: Let_def kept_line_def)

lemma filter_title_lines_caps:
  "\<forall>x\<in>set pre. isupper (strip x) \<Longrightarrow>
   filter_title_lines ttl (pre @ ls) False = filter_title_lines ttl ls False"
  by (induction pre) (simp_all add: Let_def)

lemma filter_title_lines_noncaps:
  "\<not> isupper (strip l) \<Longrightarrow>
   filter_title_lines ttl (l # rest) False = filter (kept_line ttl) (l # rest)"
  by (simp add: Let_def filter_title_lines_started kept_line_def)

section \<open>The claims about boundary detection\<close>

text \<open>
  Claim C1, as stated: every boundary emitted is verified by a line that contains
  \<^verbatim>\<open>REPORTED BY\<close>, or both \<^verbatim>\<open>BEFORE THE HON.\<close> and \<^verbatim>\<open>JUDGE\<close>, within the eight lines after
  the position where a line was matched as a speaker or location indicator. It is false of
  the boundaries that are emitted where the forward walk ends on a line that is not
  uppercase: there the lookahead starts at that very line, however far behind the
  indicator line is. Below, line 2 is the only line with an indicator and the walk ends at
  line 12, which is not uppercase and is itself the only line with a verification phrase:
  no line verifies among the eight lines after line 2, nor after line 12, and the
  boundary from 2 to 12 is emitted.
\<close>

theorem far_reporter_counterexample:
  "map (\<lambda>b. (start b, title_end b)) (find_discourse_boundaries far_reporter_lines) = [(2, 12)]
   \<and> filter (\<lambda>p. indicator (strip (far_reporter_lines ! p))) [0..<length far_reporter_lines] = [2]
   \<and> filter (\<lambda>k. has_verification (strip (far_reporter_lines ! k)))
        [0..<length far_reporter_lines] = [12]
   \<and> \<not> verified_after far_reporter_lines 2 \<and> \<not> verified_after far_reporter_lines 12"
  by code_simp

text \<open>
  Claim C1, amended: every boundary that \<^verbatim>\<open>find_discourse_boundaries\<close> emits is verified:
  one of the (at most) eight lines from its \<^verbatim>\<open>title_end\<close> on contains \<^verbatim>\<open>REPORTED BY\<close>, or
  both \<^verbatim>\<open>BEFORE THE HON.\<close> and \<^verbatim>\<open>JUDGE\<close>; so a block with no such line in that lookahead
  yields no boundary. \<^verbatim>\<open>title_end\<close> is the cursor at which the lookahead ran: either the
  line just before it carries a speaker or location indicator (the lookahead is then the
  eight lines after that line), or it is the line that is not uppercase and ended the
  walk, reached with a speaker indicator among the title lines (the lookahead then
  starts with that line).
\<close>

theorem emitted_boundary_is_verified:
  assumes "b \<in> set (find_discourse_boundaries lines)"
  shows "(\<exists>k. title_end b \<le> k \<and> k < title_end b + 8 \<and> k < length lines
              \<and> has_verification (strip (lines ! k)))
       \<and> ((0 < title_end b \<and> indicator (strip (lines ! (title_end b - 1))))
          \<or> (title_end b < length lines \<and> \<not> isupper (strip (lines ! title_end b))
              \<and> list_ex has_speaker_indicator (title_lines b)))"
proof -
  from assms obtain how where e: "emitted_at lines how (title_end b) (title_lines b)"
    unfolding find_discourse_boundaries_def by (auto dest: scan_emits)
  then have "verified lines (title_end b)" by (simp add: emitted_at_def)
  then have window: "\<exists>k. title_end b \<le> k \<and> k < title_end b + 8 \<and> k < length lines
              \<and> has_verification (strip (lines ! k))"
    by (simp add: verified_iff)
  from e have "(0 < title_end b \<and> indicator (strip (lines ! (title_end b - 1))))
          \<or> (title_end b < length lines \<and> \<not> isupper (strip (lines ! title_end b))
              \<and> list_ex has_speaker_indicator (title_lines b))"
    by (cases "how = Verified_on_indicator") (simp_all add: emitted_at_def)
  with window show ?thesis by blast
qed

theorem emitted_boundary_is_verified_witness:
  "\<lparr>start = 2, title_end = 4, title_lines = [''REMARKS'', ''BY PRESIDENT BRIGHAM YOUNG,'']\<rparr>
     \<in> set (find_discourse_boundaries remarks_lines)
   \<and> (\<exists>k. 4 \<le> k \<and> k < 4 + 8 \<and> k < length remarks_lines
           \<and> has_verification (strip (remarks_lines ! k)))
   \<and> ((0 < (4::nat) \<and> indicator (strip (remarks_lines ! (4 - 1))))
      \<or> (4 < length remarks_lines \<and> \<not> isupper (strip (remarks_lines ! 4))
          \<and> list_ex has_speaker_indicator [''REMARKS'', ''BY PRESIDENT BRIGHAM YOUNG,'']))"
proof -
  have m: "\<lparr>start = 2, title_end = 4, title_lines = [''REMARKS'', ''BY PRESIDENT BRIGHAM YOUNG,'']\<rparr>
     \<in> set (find_discourse_boundaries remarks_lines)"
    by code_simp
  from emitted_boundary_is_verified [OF m] m show ?thesis by simp
qed

text \<open>
  Claim C2. Consecutive boundaries do not overlap (\<^verbatim>\<open>title_end\<close> of one is at most
  \<^verbatim>\<open>start\<close> of the next) and their starts increase strictly. The code does not keep this:
  the guard \<^verbatim>\<open>i < last_boundary_end + 3\<close> holds back the candidate only, and the backward
  loop walks from a later candidate through the uppercase lines of the heading just
  emitted. On the heading below (the speaker line early, a location line more than three
  lines later, then the reporter line) the two boundaries emitted start at the same line
  and the second starts before the first one's \<^verbatim>\<open>title_end\<close>. (Only \<^verbatim>\<open>title_end\<close> is
  ordered: \<open>title_ends_increase\<close> above.)
\<close>

theorem bowery_heading_boundaries_overlap:
  "map (\<lambda>b. (start b, title_end b)) (find_discourse_boundaries bowery_lines) = [(2, 4), (2, 8)]"
  by code_simp

text \<open>
  Claim C3, as stated: after a forward walk that ends on a line that is not uppercase with
  a failed lookahead, the scan resumes one line past the candidate \<open>i\<close>. It is false: the
  source sets \<^verbatim>\<open>i = j if j > i else i + 1\<close>, and here the candidate is line 2 and the scan
  resumes at line 4.
\<close>

theorem failed_block_resume_counterexample:
  "fst (forward_walk priesthood_lines 2 2 (fst (look_back priesthood_lines 2 [] 2)))
     = Failed_on_noncaps
   \<and> fst (scan_step priesthood_lines 2 (- 1)) = 4
   \<and> fst (scan_step priesthood_lines 2 (- 1)) \<noteq> 2 + 1"
  by code_simp

text \<open>
  Claim C3, amended: after such a walk from the candidate \<open>i\<close> the scan resumes at \<open>j\<close>,
  the line that is not uppercase and ended the walk; \<open>j\<close> is past \<open>i\<close> and past every
  line the walk went over (each blank, a running header or uppercase), no boundary is
  appended and \<^verbatim>\<open>last_boundary_end\<close> is unchanged.
\<close>

theorem failed_block_resumes_at_noncaps_line:
  assumes "i < length lines" and "\<not> int i < e + 3"
    and "\<not> amen_or_empty (strip (lines ! i))"
    and "isupper (strip (lines ! i))" and "5 \<le> length (strip (lines ! i))"
    and "\<not> running_header (strip (lines ! i))"
    and "forward_walk lines i i (fst (look_back lines i [] i)) = (Failed_on_noncaps, j, tls)"
  shows "scan_step lines i e = (j, e, None) \<and> i < j \<and> j < length lines
       \<and> \<not> isupper (strip (lines ! j))
       \<and> (\<forall>k. i \<le> k \<and> k < j \<longrightarrow> skipped_or_caps (strip (lines ! k)))"
proof -
  from forward_walk_noncaps [OF assms(7)]
  have nc: "j < length lines" "\<not> skipped_or_caps (strip (lines ! j))"
    "\<forall>k. i \<le> k \<and> k < j \<longrightarrow> skipped_or_caps (strip (lines ! k))"
    by simp_all
  from assms(4) have "skipped_or_caps (strip (lines ! i))" by (simp add: skipped_or_caps_def)
  with nc(2) have "j \<noteq> i" by auto
  moreover from assms(7) have "i \<le> j" by (rule forward_walk_advances)
  ultimately have ij: "i < j" by simp
  obtain tls0 st where lb: "look_back lines i [] i = (tls0, st)"
    by (cases "look_back lines i [] i")
  with assms(7) have "forward_walk lines i i tls0 = (Failed_on_noncaps, j, tls)" by simp
  with assms(1-6) ij lb have "scan_step lines i e = (j, e, None)"
    by (simp add: scan_step_def Let_def)
  with ij nc show ?thesis by (simp add: skipped_or_caps_def)
qed

theorem failed_block_resumes_at_noncaps_line_witness:
  "scan_step priesthood_lines 2 (- 1) = (4, - 1, None) \<and> (2::nat) < 4
   \<and> 4 < length priesthood_lines \<and> \<not> isupper (strip (priesthood_lines ! 4))
   \<and> skipped_or_caps (strip (priesthood_lines ! 2))
   \<and> skipped_or_caps (strip (priesthood_lines ! 3))"
proof -
  have a: "2 < length priesthood_lines" "\<not> int 2 < - 1 + 3"
    "\<not> amen_or_empty (strip (priesthood_lines ! 2))"
    "isupper (strip (priesthood_lines ! 2))" "5 \<le> length (strip (priesthood_lines ! 2))"
    "\<not> running_header (strip (priesthood_lines ! 2))"
    by code_simp+
  have w: "forward_walk priesthood_lines 2 2 (fst (look_back priesthood_lines 2 [] 2))
     = (Failed_on_noncaps, 4, [''BY ELDER JOHN TAYLOR,'', ''ON THE PRIESTHOOD''])"
    by code_simp
  from failed_block_resumes_at_noncaps_line [OF a w] show ?thesis by simp
qed

section \<open>The claim about hyphenation\<close>

text \<open>
  Claim C7, as stated: for every list of lines and every index \<open>i\<close>, lines \<open>i\<close> and
  \<open>i + 1\<close> are merged exactly when line \<open>i\<close> ends with a word character and a hyphen and
  line \<open>i + 1\<close> starts with a lowercase letter. It is false at an index whose line the
  merge before it has consumed: below, line 1 ends with a hyphen and line 2 starts with a
  lowercase letter, but line 1 has been merged into line 0 and line 2 is kept as it is.
\<close>

theorem chain_counterexample:
  "hyphen_end (chain_lines ! 1) \<and> lower_start (chain_lines ! 2)
   \<and> fix_hyphenation chain_lines = [''international co-'', ''operation'']"
  by code_simp

text \<open>
  Claim C7, amended: for every list of lines and every position \<open>i\<close> that the cursor of
  \<^verbatim>\<open>fix_hyphenation\<close> reaches (\<open>fix_from lines i\<close> is what the loop appends from there on)
  and that has a next line: lines \<open>i\<close> and \<open>i + 1\<close> are merged exactly when line \<open>i\<close>
  ends with a word character and a hyphen (then whitespace only) and line \<open>i + 1\<close>,
  trimmed, starts with a lowercase letter. The merged line is line \<open>i\<close> without the hyphen
  and what follows it, with the trimmed line \<open>i + 1\<close> appended directly; the loop goes on
  at \<open>i + 2\<close>, so the merge has consumed both lines and line \<open>i + 1\<close> is not looked at
  again. Otherwise line \<open>i\<close> is kept as it is and the loop goes on at \<open>i + 1\<close>. The lines
  \<^verbatim>\<open>exam-\<close>, \<^verbatim>\<open>ple text\<close> give the one line \<^verbatim>\<open>example text\<close>.
\<close>

theorem hyphenation_merges_at_cursor:
  assumes "i + 1 < length lines"
  shows "fix_from lines i =
           (if hyphen_end (lines ! i) \<and> lower_start (lines ! (i + 1))
            then (butlast (rstrip (lines ! i)) @ strip (lines ! (i + 1))) # fix_from lines (i + 2)
            else lines ! i # fix_from lines (i + 1))
         \<and> fix_hyphenation [''exam-'', ''ple text''] = [''example text'']"
proof -
  have "fix_hyphenation [''exam-'', ''ple text''] = [''example text'']" by code_simp
  with fix_from_cursor [OF assms] show ?thesis by simp
qed

theorem hyphenation_merges_at_cursor_witness:
  "0 + 1 < length [''exam-'', ''ple text'']
   \<and> hyphen_end ''exam-'' \<and> lower_start ''ple text''
   \<and> fix_from [''exam-'', ''ple text''] 0 = [''example text'']"
proof -
  have l: "0 + 1 < length [''exam-'', ''ple text'']" by simp
  have c: "hyphen_end ''exam-''" "lower_start ''ple text''" by code_simp+
  have e: "fix_from [''exam-'', ''ple text''] 2 = []" by (simp add: fix_from_end)
  have b: "butlast (rstrip ''exam-'') @ strip ''ple text'' = ''example text''" by code_simp
  from hyphenation_merges_at_cursor [OF l] c e b show ?thesis
    by (simp add: numeral_2_eq_2)
qed

section \<open>The claims about metadata\<close>

text \<open>
  Claim C5, as stated: the date field is the first match of the date pattern in the lines
  of the block. It is false: the loop over the block breaks at the first line that starts
  with \<^verbatim>\<open>REPORTED BY\<close>, and a match in a later line of the block is not recorded. Below,
  the block of the one boundary found holds the line \<^verbatim>\<open>DELIVERED JANUARY 1ST, 1860.\<close>, its
  only line with a match, after the reporter line, and the date field stays empty.
\<close>

theorem date_after_reporter_counterexample:
  "map (\<lambda>b. (start b, title_end b)) (find_discourse_boundaries late_date_lines) = [(2, 4)]
   \<and> block_lines late_date_lines 2 4
      = [''REMARKS'', ''BY PRESIDENT BRIGHAM YOUNG,'', ''REPORTED BY G. D. WATT.'',
         ''DELIVERED JANUARY 1ST, 1860.'', ''Body text.'']
   \<and> List.find (\<lambda>l. date_search l \<noteq> None) (block_lines late_date_lines 2 4)
      = Some ''DELIVERED JANUARY 1ST, 1860.''
   \<and> date_search ''DELIVERED JANUARY 1ST, 1860.'' = Some ''JANUARY 1ST, 1860''
   \<and> date (extract_metadata_from_block late_date_lines 2 4) = []"
  by code_simp

text \<open>
  Claim C5, amended: the date field is the first match of the date pattern (a run of
  capital letters, whitespace, one or two digits, an optional \<^verbatim>\<open>TH\<close>, \<^verbatim>\<open>ST\<close>, \<^verbatim>\<open>ND\<close> or
  \<^verbatim>\<open>RD\<close>, a comma, whitespace, four digits) in the lines of the block that come before the
  first line starting with \<^verbatim>\<open>REPORTED BY\<close>: the leftmost match of the first such line that
  has one. It is recorded once: no later line and not the date found in the joined
  speaker and location text replaces it.
\<close>

theorem date_is_first_match_before_reporter:
  assumes "List.find (\<lambda>l. date_search l \<noteq> None)
             (scanned_lines (block_lines lines start_idx end_idx)) = Some l"
  shows "date_search l = Some (date (extract_metadata_from_block lines start_idx end_idx))"
proof -
  let ?init = "\<lparr>title_parts = [], speaker_parts = [], location_parts = [],
               date_field = [], reporter_field = []\<rparr>"
  let ?st = "scan_block (block_lines lines start_idx end_idx) ?init"
  have "date_field ?init = []" by simp
  from scan_block_first_date [OF this assms]
  have d: "date_search l = Some (date_field ?st)" .
  from date_search_nonempty [OF d] have "date_field ?st \<noteq> []" .
  then have "date (extract_metadata_from_block lines start_idx end_idx) = date_field ?st"
    by (simp add: metadata_date Let_def)
  with d show ?thesis by simp
qed

theorem date_is_first_match_before_reporter_witness:
  "List.find (\<lambda>l. date_search l \<noteq> None) (scanned_lines (block_lines dated_lines 2 4))
     = Some ''DELIVERED IN THE TABERNACLE, JANUARY 1ST, 1860,''
   \<and> date_search ''DELIVERED IN THE TABERNACLE, JANUARY 1ST, 1860,'' = Some ''JANUARY 1ST, 1860''
   \<and> date_search ''AND REPEATED JULY 4, 1860.'' = Some ''JULY 4, 1860''
   \<and> ''AND REPEATED JULY 4, 1860.'' \<in> set (scanned_lines (block_lines dated_lines 2 4))
   \<and> date (extract_metadata_from_block dated_lines 2 4) = ''JANUARY 1ST, 1860''"
proof -
  have f: "List.find (\<lambda>l. date_search l \<noteq> None) (scanned_lines (block_lines dated_lines 2 4))
     = Some ''DELIVERED IN THE TABERNACLE, JANUARY 1ST, 1860,''"
    by code_simp
  have d: "date_search ''DELIVERED IN THE TABERNACLE, JANUARY 1ST, 1860,'' = Some ''JANUARY 1ST, 1860''"
    "date_search ''AND REPEATED JULY 4, 1860.'' = Some ''JULY 4, 1860''"
    "''AND REPEATED JULY 4, 1860.'' \<in> set (scanned_lines (block_lines dated_lines 2 4))"
    by code_simp+
  from date_is_first_match_before_reporter [OF f] f d show ?thesis by simp
qed

text \<open>
  Claim C6. Speaker extraction followed by speaker normalization turns the speaker text
  \<^verbatim>\<open>BY B. YOUNG,\<close> into \<^verbatim>\<open>BRIGHAM YOUNG\<close> and \<^verbatim>\<open>BY P. P. PRATT,\<close> into
  \<^verbatim>\<open>ELDER PARLEY P. PRATT\<close>.
\<close>

theorem speaker_examples:
  "normalize_speaker_name (extract_speaker_name ''BY B. YOUNG,'') = ''BRIGHAM YOUNG''
   \<and> normalize_speaker_name (extract_speaker_name ''BY P. P. PRATT,'') = ''ELDER PARLEY P. PRATT''"
  by code_simp

section \<open>The claims about content and paragraphs\<close>

text \<open>
  Claim C4, as stated: while the title echoes are stripped from a record's content, an
  uppercase line that contains \<^verbatim>\<open>REPORTED BY\<close> or \<^verbatim>\<open>DELIVERED\<close> is kept, and from the first
  line that is not uppercase on every line is kept, also a line equal to the title. It is
  false. In the record below the title is \<^verbatim>\<open>REMARKS\<close> and the content span is
  \<^verbatim>\<open>REPORTED BY G. D. WATT.\<close>, \<^verbatim>\<open>Body text.\<close>, \<^verbatim>\<open>REMARKS\<close>, \<^verbatim>\<open>More text.\<close>; what reaches the
  paragraph reconstruction is \<^verbatim>\<open>Body text.\<close>, \<^verbatim>\<open>More text.\<close>: the line \<^verbatim>\<open>REMARKS\<close> after
  the first line that is not uppercase is dropped (the source tests every line against
  the title, "Still check if it's an exact title match"), and so is the reporter line
  (the branch that tests for \<^verbatim>\<open>REPORTED BY\<close> and \<^verbatim>\<open>DELIVERED\<close> appends nothing).
\<close>

theorem title_echo_counterexample:
  "map (\<lambda>b. (start b, title_end b)) (find_discourse_boundaries echo_lines) = [(2, 4)]
   \<and> title (extract_metadata_from_block echo_lines 2 4) = ''REMARKS''
   \<and> slice echo_lines 4 (length echo_lines)
      = [''REPORTED BY G. D. WATT.'', ''Body text.'', ''REMARKS'', ''More text.'']
   \<and> map snd (content_spans echo_lines (find_discourse_boundaries echo_lines))
      = [[''Body text.'', ''More text.'']]"
  by code_simp

text \<open>
  Claim C4, amended: stripping stops at the first line that is not uppercase. From that
  line on every line, uppercase or not, is kept as it is and in order, but for the lines
  whose trimmed text is the title or the title followed by a period, which are dropped
  wherever they stand. Of the uppercase lines before it, those that contain neither
  \<^verbatim>\<open>REPORTED BY\<close> nor \<^verbatim>\<open>DELIVERED\<close> are dropped. (Nothing is said here of the uppercase
  lines before it that do contain one of the two.)
\<close>

theorem title_echo_stripping:
  assumes "\<forall>x\<in>set pre. isupper (strip x)" and "\<not> isupper (strip l)"
  shows "\<exists>kept. filter_title_lines ttl (pre @ l # rest) False
                 = kept @ filter (kept_line ttl) (l # rest)
               \<and> (\<forall>x\<in>set kept. x \<in> set pre \<and> exempt_line x)"
proof -
  from assms(1) have "filter_title_lines ttl (pre @ l # rest) False
                      = filter_title_lines ttl (l # rest) False"
    by (rule filter_title_lines_caps)
  also from assms(2) have "\<dots> = filter (kept_line ttl) (l # rest)"
    by (rule filter_title_lines_noncaps)
  finally have "filter_title_lines ttl (pre @ l # rest) False
                = [] @ filter (kept_line ttl) (l # rest)"
    by (simp only: append_Nil)
  then show ?thesis by (intro exI [of _ "[]"]) simp
qed

theorem title_echo_stripping_witness:
  "isupper (strip ''ON THE PRIESTHOOD'') \<and> \<not> isupper (strip ''Body text.'')
   \<and> filter (kept_line ''REMARKS'') [''Body text.'', ''REMARKS.'', ''MORE CAPITALS'', ''tail'']
      = [''Body text.'', ''MORE CAPITALS'', ''tail'']
   \<and> (\<exists>kept. filter_title_lines ''REMARKS''
                ([''ON THE PRIESTHOOD''] @ ''Body text.'' # [''REMARKS.'', ''MORE CAPITALS'', ''tail''])
                False
              = kept @ [''Body text.'', ''MORE CAPITALS'', ''tail''])"
proof -
  have a: "\<forall>x\<in>set [''ON THE PRIESTHOOD'']. isupper (strip x)" by code_simp
  have b: "\<not> isupper (strip ''Body text.'')" by code_simp
  have c: "filter (kept_line ''REMARKS'') (''Body text.'' # [''REMARKS.'', ''MORE CAPITALS'', ''tail''])
      = [''Body text.'', ''MORE CAPITALS'', ''tail'']" by code_simp
  from title_echo_stripping [OF a b, of "''REMARKS''" "[''REMARKS.'', ''MORE CAPITALS'', ''tail'']"]
  obtain kept where "filter_title_lines ''REMARKS''
                ([''ON THE PRIESTHOOD''] @ ''Body text.'' # [''REMARKS.'', ''MORE CAPITALS'', ''tail''])
                False
              = kept @ filter (kept_line ''REMARKS'') (''Body text.'' # [''REMARKS.'', ''MORE CAPITALS'', ''tail''])"
    by blast
  with c have "\<exists>kept. filter_title_lines ''REMARKS''
                ([''ON THE PRIESTHOOD''] @ ''Body text.'' # [''REMARKS.'', ''MORE CAPITALS'', ''tail''])
                False
              = kept @ [''Body text.'', ''MORE CAPITALS'', ''tail'']"
    by (simp only:) blast
  with a b c show ?thesis by simp
qed

text \<open>
  Claim C8. In \<^verbatim>\<open>join_paragraphs\<close>, two lines that are not blank and have a blank line
  between them end up in two paragraphs, whatever the first ends with and the second
  starts with: the first is the last line of one paragraph and the second is the first
  line of the next. (\<open>paragraphs_of\<close> is the list \<^verbatim>\<open>paragraphs\<close> that \<^verbatim>\<open>join_paragraphs\<close>
  joins with an empty line.)
\<close>

theorem blank_line_is_hard_break:
  assumes "strip blank = []" and "strip a \<noteq> []" and "strip b \<noteq> []"
  shows "\<exists>before cur more after.
           paragraphs_of (pre @ [a, blank, b] @ post)
           = before @ [finish_paragraph (cur @ [strip a]), finish_paragraph (strip b # more)] @ after"
  using assms by (rule blank_separates)

theorem blank_line_is_hard_break_witness:
  "strip ''  '' = [] \<and> strip ''the first line goes on'' \<noteq> [] \<and> strip ''and so does the next'' \<noteq> []
   \<and> paragraphs_of ([] @ [''the first line goes on'', ''  '', ''and so does the next''] @ [])
      = [''the first line goes on'', ''and so does the next'']
   \<and> (\<exists>before cur more after.
         paragraphs_of ([] @ [''the first line goes on'', ''  '', ''and so does the next''] @ [])
         = before @ [finish_paragraph (cur @ [strip ''the first line goes on'']),
                     finish_paragraph (strip ''and so does the next'' # more)] @ after)"
proof -
  have h: "strip ''  '' = []" "strip ''the first line goes on'' \<noteq> []"
    "strip ''and so does the next'' \<noteq> []"
    by code_simp+
  have e: "paragraphs_of ([] @ [''the first line goes on'', ''  '', ''and so does the next''] @ [])
      = [''the first line goes on'', ''and so does the next'']"
    by code_simp
  from blank_line_is_hard_break [OF h, of "[]" "[]"] h e show ?thesis by blast
qed

text \<open>
  Claim C10. Every line that \<^verbatim>\<open>clean_page_text\<close> returns is non-empty and trimmed. So no
  line of the stream that the pipeline builds from the pages is blank, and no line that
  reaches \<^verbatim>\<open>join_paragraphs\<close> in the pipeline is blank: the branch for a blank line, the
  hard paragraph break, is never taken there, and the paragraphs of a record are split
  by the other branch only.
\<close>

theorem pipeline_lines_never_blank:
  "(\<forall>l\<in>set (clean_page_text page_lines). l \<noteq> [] \<and> strip l = l)
   \<and> (\<forall>l\<in>set (all_lines pages). strip l \<noteq> [])
   \<and> core_pipeline pages
      = map (\<lambda>(meta, content_lines). \<lparr>metadata = meta, content = join_paragraphs content_lines\<rparr>)
            (content_spans (all_lines pages) (find_discourse_boundaries (all_lines pages)))
   \<and> (\<forall>(meta, content_lines)
          \<in>set (content_spans (all_lines pages) (find_discourse_boundaries (all_lines pages))).
        \<forall>l\<in>set content_lines. strip l \<noteq> [])"
proof -
  have "\<forall>l\<in>set (clean_page_text page_lines). l \<noteq> [] \<and> strip l = l"
    by (blast dest: clean_page_text_lines)
  moreover have "\<forall>l\<in>set (all_lines pages). strip l \<noteq> []"
    by (blast dest: all_lines_not_blank)
  moreover have "core_pipeline pages
      = map (\<lambda>(meta, content_lines). \<lparr>metadata = meta, content = join_paragraphs content_lines\<rparr>)
            (content_spans (all_lines pages) (find_discourse_boundaries (all_lines pages)))"
    by (simp add: core_pipeline_def find_all_discourses_def)
  moreover have "\<forall>(meta, content_lines)
          \<in>set (content_spans (all_lines pages) (find_discourse_boundaries (all_lines pages))).
        \<forall>l\<in>set content_lines. strip l \<noteq> []"
    by (auto dest!: content_spans_subset all_lines_not_blank)
  ultimately show ?thesis by blast
qed

theorem pipeline_lines_never_blank_witness:
  "clean_page_text (two_pages ! 1)
     = [''REMARKS'', ''BY PRESIDENT BRIGHAM YOUNG,'', ''REPORTED BY G. D. WATT.'',
        ''Body text.'', ''A second para-'', ''graph.'']
   \<and> all_lines two_pages
     = [''Preface.'', ''More preface.'', ''REMARKS'', ''BY PRESIDENT BRIGHAM YOUNG,'',
        ''REPORTED BY G. D. WATT.'', ''Body text.'', ''A second paragraph.'']
   \<and> map snd (content_spans (all_lines two_pages) (find_discourse_boundaries (all_lines two_pages)))
     = [[''Body text.'', ''A second paragraph.'']]
   \<and> map content (core_pipeline two_pages) = [''Body text. A second paragraph.'']
   \<and> strip ''Body text.'' \<noteq> [] \<and> strip ''A second paragraph.'' \<noteq> []"
proof -
  have c: "clean_page_text (two_pages ! 1)
     = [''REMARKS'', ''BY PRESIDENT BRIGHAM YOUNG,'', ''REPORTED BY G. D. WATT.'',
        ''Body text.'', ''A second para-'', ''graph.'']"
    by code_simp
  have a: "all_lines two_pages
     = [''Preface.'', ''More preface.'', ''REMARKS'', ''BY PRESIDENT BRIGHAM YOUNG,'',
        ''REPORTED BY G. D. WATT.'', ''Body text.'', ''A second paragraph.'']"
    by code_simp
  have s: "map snd (content_spans (all_lines two_pages) (find_discourse_boundaries (all_lines two_pages)))
     = [[''Body text.'', ''A second paragraph.'']]"
    unfolding a by code_simp
  have p: "map content (core_pipeline two_pages) = [''Body text. A second paragraph.'']"
    unfolding core_pipeline_def a by code_simp
  from s obtain meta where m: "(meta, [''Body text.'', ''A second paragraph.''])
      \<in> set (content_spans (all_lines two_pages) (find_discourse_boundaries (all_lines two_pages)))"
    by (cases "content_spans (all_lines two_pages) (find_discourse_boundaries (all_lines two_pages))")
       auto
  from pipeline_lines_never_blank [of "two_pages ! 1" two_pages] m
  have "strip ''Body text.'' \<noteq> []" "strip ''A second paragraph.'' \<noteq> []"
    by auto
  with c a s p show ?thesis by simp
qed

end
